theory Spec2Isabelle
  imports Main
begin

section \<open>Data model\<close>

text \<open>
  The program is a single script, \<^verbatim>\<open>src/index.js\<close>. It talks to three
  collaborators: the hosting platform (through \<^verbatim>\<open>octokit.request\<close>), the chat
  webhook (through \<^verbatim>\<open>axios.post\<close>) and the file system
  (\<^verbatim>\<open>data.json\<close>, \<^verbatim>\<open>commits.json\<close>). The collaborators are a record of
  answer functions (\<open>platform\<close>); everything the script mutates or emits is a record
  of state (\<open>world\<close>) that every function takes and returns.
\<close>

text \<open>Every \<^verbatim>\<open>throw\<close> and every rejected promise is a value of this type.\<close>

datatype error = RequestError string | TypeError string | FileError string

text \<open>
  A JavaScript number that holds a time value: the result of \<^verbatim>\<open>Date.getTime()\<close>,
  in milliseconds since the epoch, or \<^verbatim>\<open>NaN\<close> for an invalid date.
\<close>

datatype jsnum = Num int | NaN

text \<open>
  \<^verbatim>\<open>pushedAt < since\<close> where \<open>pushedAt\<close> is a valid time value: a comparison with
  \<^verbatim>\<open>NaN\<close> is false.
\<close>

definition js_lt :: "int \<Rightarrow> jsnum \<Rightarrow> bool" where
  "js_lt a s = (case s of Num b \<Rightarrow> a < b | NaN \<Rightarrow> False)"

text \<open>
  The text of a timestamp, as \<^verbatim>\<open>ISODateString\<close> builds it. The calendar is the
  platform's (\<^verbatim>\<open>getUTCFullYear\<close>, ..., \<^verbatim>\<open>getUTCSeconds\<close>, and the parser behind
  \<^verbatim>\<open>new Date(text)\<close>), so a text is represented by what it denotes: \<open>ISO s\<close> is
  the text \<^verbatim>\<open>YYYY-MM-DDTHH:MM:SSZ\<close> of the whole second \<open>s\<close> since the epoch (for the
  years 1000 to 9999, where the year has four digits), and \<open>NaNText\<close> is
  \<^verbatim>\<open>NaN-NaN-NaNTNaN:NaN:NaNZ\<close>, which the function builds from an invalid date.
\<close>

datatype datetext = ISO int | NaNText

text \<open>
  A value stored under a key of \<^verbatim>\<open>data.json\<close>: a timestamp text, or any other JSON
  value, kept as its text.
\<close>

datatype json = JDate datetext | JOther string

text \<open>
  A repository descriptor of the platform's listing. \<open>pushed_at\<close> is the time value
  \<^verbatim>\<open>new Date(repo.pushed_at).getTime()\<close>; the platform sends an ISO-8601 text, or
  \<^verbatim>\<open>null\<close> (time value 0), so it is a number.
\<close>

record repo_info =
  owner_login :: string
  name :: string
  pushed_at :: int

record branch_info =
  branch_name :: string

text \<open>
  A commit of the platform's listing, with the fields \<^verbatim>\<open>sendToDiscord\<close> reads.
  \<open>author_login\<close> is \<^verbatim>\<open>commit.author.login\<close>; the platform sends
  \<^verbatim>\<open>author: null\<close> for a commit whose e-mail address belongs to no account, and
  then it is \<open>None\<close>.
\<close>

record commit =
  message :: string
  author_name :: string
  author_date :: string
  author_login :: "string option"
  html_url :: string

text \<open>The cycle result: \<^verbatim>\<open>{ branch, commits }\<close> and \<^verbatim>\<open>{ repo, branchCommits }\<close>.\<close>

record branch_update =
  branch :: string
  commits :: "commit list"

record repo_update =
  repo :: string
  branchCommits :: "branch_update list"

text \<open>
  The collaborators. Each request is answered by \<open>Inr\<close> of the response's
  \<^verbatim>\<open>data\<close> or by \<open>Inl\<close> of the error the client library throws. \<open>latency\<close> is
  the wall-clock time, in milliseconds, that passes while one request is awaited.
\<close>

record platform =
  org_repos :: "string \<Rightarrow> nat \<Rightarrow> error + repo_info list"
  repo_branches :: "string \<Rightarrow> string \<Rightarrow> error + branch_info list"
  branch_commits :: "string \<Rightarrow> string \<Rightarrow> string \<Rightarrow> datetext \<Rightarrow> error + commit list"
  webhook :: "string \<Rightarrow> error option"
  latency :: nat
  date_parse :: "string \<Rightarrow> jsnum"
  locale_string :: "string \<Rightarrow> string"

text \<open>
  The state. \<open>now\<close> is the wall clock; \<open>data_json\<close> is the parsed content of
  \<^verbatim>\<open>data.json\<close>, a JSON object as a map from keys to values, or \<open>None\<close> when the
  file cannot be read or parsed; \<open>commits_json\<close> is the content of
  \<^verbatim>\<open>commits.json\<close>. The other fields are traces: the page numbers requested from the
  repository listing, the calls of \<^verbatim>\<open>sendToDiscord\<close>, the bodies posted to the
  webhook, the lines of \<^verbatim>\<open>console.error\<close>, and the promise rejections that no
  handler took. The runtime ends the process on an unhandled rejection, once the
  callbacks that were ready have run. The lines of \<^verbatim>\<open>console.log\<close> are not kept.
  \<^verbatim>\<open>fs.writeFileSync\<close> is taken to succeed: a file system that refuses a write is
  outside the model.
\<close>

record world =
  now :: int
  data_json :: "(string \<rightharpoonup> json) option"
  commits_json :: "repo_update list option"
  page_requests :: "nat list"
  notifier_calls :: "(string \<times> string \<times> commit list) list"
  posts :: "string list"
  console_error :: "string list"
  unhandled :: "error list"

text \<open>The time one awaited request takes.\<close>

definition await :: "platform \<Rightarrow> world \<Rightarrow> world" where
  "await P w = w\<lparr>now := now w + int (latency P)\<rparr>"

definition error_message :: "error \<Rightarrow> string" where
  "error_message e = (case e of RequestError m \<Rightarrow> m | TypeError m \<Rightarrow> m | FileError m \<Rightarrow> m)"

section \<open>The Repository Lister\<close>

text \<open>
  The inner loop of \<^verbatim>\<open>getOrgRepos\<close> (lines 164 to 169):
  \<^verbatim>\<open>
    while (pushedAt < since) {
      repoListPage.pop()
      index--
      if (index < 0) break
      pushedAt = new Date(repoListPage[index].pushed_at).getTime()
    }
  \<close>
  It returns the page and \<open>pushedAt\<close> as the loop leaves them.
\<close>

function trim_loop :: "jsnum \<Rightarrow> repo_info list \<Rightarrow> int \<Rightarrow> int \<Rightarrow> repo_info list \<times> int" where
  "trim_loop since repoListPage index pushedAt =
     (if js_lt pushedAt since then
        let page' = butlast repoListPage; index' = index - 1
        in if index' < 0 then (page', pushedAt)
           else trim_loop since page' index' (pushed_at (page' ! nat index'))
      else (repoListPage, pushedAt))"
  by pat_completeness auto
termination
  by (relation "measure (\<lambda>(since, page, index, pushedAt). nat index)") auto

declare trim_loop.simps [simp del]

text \<open>
  The outer loop of \<^verbatim>\<open>getOrgRepos\<close> (lines 143 to 173). \<^verbatim>\<open>while (true)\<close> ends
  only at an empty page, at a page trimmed to nothing, or at a failed request, so the
  loop is a partial function: \<open>None\<close> is the run that never returns. A failed request
  is not caught here, so it is the result.
\<close>

partial_function (option) getOrgRepos_loop ::
  "platform \<Rightarrow> string \<Rightarrow> jsnum \<Rightarrow> repo_info list \<Rightarrow> nat \<Rightarrow> world
     \<Rightarrow> ((error + repo_info list) \<times> world) option" where
  "getOrgRepos_loop P org since repoList pages w =
     (let w1 = await P (w\<lparr>page_requests := page_requests w @ [pages]\<rparr>)
      in case org_repos P org pages of
           Inl e \<Rightarrow> Some (Inl e, w1)
         | Inr repoListPage \<Rightarrow>
             if length repoListPage = 0 then Some (Inr repoList, w1)
             else
               let index = int (length repoListPage) - 1;
                   pushedAt = pushed_at (repoListPage ! nat index)
               in case trim_loop since repoListPage index pushedAt of
                    (page', pushedAt') \<Rightarrow>
                      let repoList' = repoList @ page'
                      in if js_lt pushedAt' since then Some (Inr repoList', w1)
                         else getOrgRepos_loop P org since repoList' (pages + 1) w1)"

definition getOrgRepos ::
  "platform \<Rightarrow> world \<Rightarrow> string \<Rightarrow> jsnum \<Rightarrow> ((error + repo_info list) \<times> world) option" where
  "getOrgRepos P w org since = getOrgRepos_loop P org since [] 1 w"

section \<open>The Notifier\<close>

definition nl :: string where
  "nl = [CHR 0x0A]"

text \<open>
  One block of the message (lines 22 to 30). \<^verbatim>\<open>commit.author.login\<close> throws a
  \<^verbatim>\<open>TypeError\<close> when \<^verbatim>\<open>commit.author\<close> is \<^verbatim>\<open>null\<close>. The rendering of the
  date in the display time zone is the platform's \<open>locale_string\<close>.
\<close>

definition format_commit :: "platform \<Rightarrow> commit \<Rightarrow> error + string" where
  "format_commit P c =
     (case author_login c of
        None \<Rightarrow> Inl (TypeError ''Cannot read properties of null (reading login)'')
      | Some login \<Rightarrow>
          Inr (''**Commit Message**: '' @ message c @ nl @
               ''**Author**: '' @ author_name c @ '' (<@'' @ login @ ''>)'' @ nl @
               ''**Date**: '' @ locale_string P (author_date c) @ '' IST'' @ nl @
               ''**Link**: '' @ html_url c @ nl @
               ''--------------''))"

text \<open>\<^verbatim>\<open>commitLogs.map(...)\<close>: the first block that throws ends the map.\<close>

fun format_commits :: "platform \<Rightarrow> commit list \<Rightarrow> error + string list" where
  "format_commits P [] = Inr []"
| "format_commits P (c # cs) =
     (case format_commit P c of
        Inl e \<Rightarrow> Inl e
      | Inr s \<Rightarrow> (case format_commits P cs of Inl e \<Rightarrow> Inl e | Inr ss \<Rightarrow> Inr (s # ss)))"

text \<open>\<^verbatim>\<open>blocks.join(sep)\<close>.\<close>

fun join :: "string \<Rightarrow> string list \<Rightarrow> string" where
  "join sep [] = []"
| "join sep [s] = s"
| "join sep (s # t # ss) = s @ sep @ join sep (t # ss)"

text \<open>The first statement of \<^verbatim>\<open>sendToDiscord\<close> (lines 18 to 32): the message.\<close>

definition build_message :: "platform \<Rightarrow> string \<Rightarrow> string \<Rightarrow> commit list \<Rightarrow> error + string" where
  "build_message P repoName branchName commitLogs =
     (case format_commits P commitLogs of
        Inl e \<Rightarrow> Inl e
      | Inr blocks \<Rightarrow>
          Inr (''**Repository**: '' @ repoName @ nl @ ''**Branch**: '' @ branchName @
               nl @ nl @ join nl blocks))"

text \<open>
  \<^verbatim>\<open>sendToDiscord\<close> (lines 17 to 42). The message is built before the
  \<^verbatim>\<open>try\<close>, so an error of the formatting is thrown to the caller; the error of the
  post is caught and logged. The call itself and the body handed to
  \<^verbatim>\<open>axios.post\<close> are recorded in the traces.
\<close>

definition sendToDiscord ::
  "platform \<Rightarrow> world \<Rightarrow> string \<Rightarrow> string \<Rightarrow> commit list \<Rightarrow> (error + unit) \<times> world" where
  "sendToDiscord P w repoName branchName commitLogs =
     (let w0 = w\<lparr>notifier_calls := notifier_calls w @ [(repoName, branchName, commitLogs)]\<rparr>
      in case build_message P repoName branchName commitLogs of
           Inl e \<Rightarrow> (Inl e, w0)
         | Inr msg \<Rightarrow>
             let w1 = await P (w0\<lparr>posts := posts w0 @ [msg]\<rparr>)
             in case webhook P msg of
                  None \<Rightarrow> (Inr (), w1)
                | Some e \<Rightarrow>
                    (Inr (), w1\<lparr>console_error := console_error w1 @
                       [''Error sending message to Discord: '' @ error_message e]\<rparr>))"

section \<open>The Branch/Commit Fetcher\<close>

text \<open>
  \<^verbatim>\<open>ISODateString\<close> (lines 190 to 208): the UTC fields of the date down to the
  second, so the milliseconds are dropped. The fields of an invalid date are
  \<^verbatim>\<open>NaN\<close>, and \<^verbatim>\<open>pad\<close> returns them as they are.
\<close>

definition ISODateString :: "jsnum \<Rightarrow> datetext" where
  "ISODateString d = (case d of Num t \<Rightarrow> ISO (t div 1000) | NaN \<Rightarrow> NaNText)"

text \<open>\<^verbatim>\<open>getRepoBranches\<close> (lines 96 to 110).\<close>

definition getRepoBranches ::
  "platform \<Rightarrow> world \<Rightarrow> string \<Rightarrow> string \<Rightarrow> branch_info list \<times> world" where
  "getRepoBranches P w owner repoName =
     (let w1 = await P w
      in case repo_branches P owner repoName of
           Inr branches \<Rightarrow> (branches, w1)
         | Inl e \<Rightarrow>
             ([], w1\<lparr>console_error := console_error w1 @
                [''Error fetching branches for '' @ owner @ ''/'' @ repoName @ '': '' @
                 error_message e]\<rparr>))"

text \<open>
  \<^verbatim>\<open>getBranchCommits\<close> (lines 112 to 137). The call of \<^verbatim>\<open>sendToDiscord\<close> is
  inside the \<^verbatim>\<open>try\<close>: an error it throws takes the \<^verbatim>\<open>catch\<close> branch too.
\<close>

definition getBranchCommits ::
  "platform \<Rightarrow> world \<Rightarrow> string \<Rightarrow> string \<Rightarrow> string \<Rightarrow> jsnum \<Rightarrow> commit list \<times> world" where
  "getBranchCommits P w owner repoName branchName since =
     (let since' = ISODateString since;
          w1 = await P w;
          failed = (\<lambda>e w'. ([], w'\<lparr>console_error := console_error w' @
                     [''Error fetching commits for branch '' @ branchName @ '' of '' @ owner @
                      ''/'' @ repoName @ '': '' @ error_message e]\<rparr>))
      in case branch_commits P owner repoName branchName since' of
           Inl e \<Rightarrow> failed e w1
         | Inr commits_data \<Rightarrow>
             if length commits_data > 0 then
               (case sendToDiscord P w1 repoName branchName commits_data of
                  (Inl e, w2) \<Rightarrow> failed e w2
                | (Inr u, w2) \<Rightarrow> (commits_data, w2))
             else (commits_data, w1))"

section \<open>One cycle\<close>

text \<open>
  The promises of \<^verbatim>\<open>Promise.all\<close> run interleaved, and their results are collected
  in the order of the list. The model runs them one after the other in that order: the
  schedule in which every response of one unit arrives before the next unit goes on.
\<close>

text \<open>The inner \<^verbatim>\<open>branches.map\<close> (lines 59 to 76).\<close>

fun branchUpdates ::
  "platform \<Rightarrow> world \<Rightarrow> repo_info \<Rightarrow> jsnum \<Rightarrow> branch_info list \<Rightarrow> branch_update list \<times> world" where
  "branchUpdates P w repoInfo since [] = ([], w)"
| "branchUpdates P w repoInfo since (b # bs) =
     (case getBranchCommits P w (owner_login repoInfo) (name repoInfo) (branch_name b) since of
        (cs, w1) \<Rightarrow>
          (case branchUpdates P w1 repoInfo since bs of
             (us, w2) \<Rightarrow> (\<lparr>branch = branch_name b, commits = cs\<rparr> # us, w2)))"

text \<open>
  The body of \<^verbatim>\<open>repos.map\<close> (lines 49 to 79): \<open>None\<close> is the \<^verbatim>\<open>null\<close> of a
  repository with no branches.
\<close>

definition repoUpdate ::
  "platform \<Rightarrow> world \<Rightarrow> jsnum \<Rightarrow> repo_info \<Rightarrow> repo_update option \<times> world" where
  "repoUpdate P w since repoInfo =
     (case getRepoBranches P w (owner_login repoInfo) (name repoInfo) of
        (branches, w1) \<Rightarrow>
          if length branches = 0 then (None, w1)
          else
            (case branchUpdates P w1 repoInfo since branches of
               (bcs, w2) \<Rightarrow> (Some \<lparr>repo = name repoInfo, branchCommits = bcs\<rparr>, w2)))"

text \<open>The outer \<^verbatim>\<open>repos.map\<close>, awaited on line 81.\<close>

fun reposUpdates ::
  "platform \<Rightarrow> world \<Rightarrow> jsnum \<Rightarrow> repo_info list \<Rightarrow> repo_update option list \<times> world" where
  "reposUpdates P w since [] = ([], w)"
| "reposUpdates P w since (r # rs) =
     (case repoUpdate P w since r of
        (u, w1) \<Rightarrow> (case reposUpdates P w1 since rs of (us, w2) \<Rightarrow> (u # us, w2)))"

section \<open>The watermark store\<close>

text \<open>
  \<^verbatim>\<open>new Date(v).getTime()\<close> for the value under a key of \<^verbatim>\<open>data.json\<close>
  (\<open>None\<close>: the key is missing, the value is \<^verbatim>\<open>undefined\<close>). What a text other
  than a timestamp of \<^verbatim>\<open>ISODateString\<close> parses to is the platform's.
\<close>

definition Date_getTime :: "platform \<Rightarrow> json option \<Rightarrow> jsnum" where
  "Date_getTime P v =
     (case v of
        None \<Rightarrow> NaN
      | Some (JDate (ISO s)) \<Rightarrow> Num (s * 1000)
      | Some (JDate NaNText) \<Rightarrow> NaN
      | Some (JOther t) \<Rightarrow> date_parse P t)"

text \<open>\<^verbatim>\<open>getLastCheck\<close> (lines 178 to 182).\<close>

definition getLastCheck :: "platform \<Rightarrow> world \<Rightarrow> error + jsnum" where
  "getLastCheck P w =
     (case data_json w of
        None \<Rightarrow> Inl (FileError ''data.json'')
      | Some data \<Rightarrow> Inr (Date_getTime P (data ''last_checked'')))"

text \<open>\<^verbatim>\<open>writeLastCheck\<close> (lines 184 to 188).\<close>

definition writeLastCheck :: "world \<Rightarrow> jsnum \<Rightarrow> error + world" where
  "writeLastCheck w last_checked =
     (case data_json w of
        None \<Rightarrow> Inl (FileError ''data.json'')
      | Some data \<Rightarrow>
          Inr (w\<lparr>data_json := Some (data(''last_checked'' \<mapsto> JDate (ISODateString last_checked)))\<rparr>))"

text \<open>
  \<^verbatim>\<open>getOrgCommits\<close> (lines 44 to 94). \<^verbatim>\<open>filter(Boolean)\<close> drops the
  \<^verbatim>\<open>null\<close> entries, and \<^verbatim>\<open>[].concat.apply\<close> of a list of objects is that list.
  \<^verbatim>\<open>new Date()\<close> on line 92 reads the wall clock there, after every request has been
  awaited. \<^verbatim>\<open>writeLastCheck\<close> is called without \<^verbatim>\<open>await\<close> and without a
  handler: its body has run when the call returns, and an error in it rejects a promise
  nobody holds. The error does not reach the caller, which returns its result; it is an
  unhandled rejection, recorded as such.
\<close>

definition getOrgCommits ::
  "platform \<Rightarrow> world \<Rightarrow> string \<Rightarrow> jsnum \<Rightarrow> ((error + repo_update list) \<times> world) option" where
  "getOrgCommits P w org since =
     (case getOrgRepos P w org since of
        None \<Rightarrow> None
      | Some (Inl e, w1) \<Rightarrow> Some (Inl e, w1)
      | Some (Inr repos, w1) \<Rightarrow>
          (case reposUpdates P w1 since repos of
             (updates, w2) \<Rightarrow>
               let orgCommits = List.map_filter id updates;
                   w3 = (if length repos > 0 then w2\<lparr>commits_json := Some orgCommits\<rparr> else w2);
                   w4 = (case writeLastCheck w3 (Num (now w3)) of
                           Inl e \<Rightarrow> w3\<lparr>unhandled := unhandled w3 @ [e]\<rparr>
                         | Inr w' \<Rightarrow> w')
               in Some (Inr orgCommits, w4)))"

text \<open>\<^verbatim>\<open>main\<close> (lines 210 to 213): one cycle.\<close>

definition main :: "platform \<Rightarrow> string \<Rightarrow> world \<Rightarrow> ((error + repo_update list) \<times> world) option" where
  "main P org w =
     (case getLastCheck P w of
        Inl e \<Rightarrow> Some (Inl e, w)
      | Inr since \<Rightarrow> getOrgCommits P w org since)"

section \<open>The Poll Loop\<close>

text \<open>
  \<^verbatim>\<open>startPolling\<close> (lines 215 to 243) owns the flag \<open>isFetching\<close> and calls
  \<^verbatim>\<open>setInterval\<close> at most once. \<open>interval_set\<close> says whether the timer exists.
  The timer's callback is asynchronous: it runs from the tick to its first
  \<^verbatim>\<open>await\<close>, and the rest runs later, while further ticks may fire in between.
  \<open>in_flight\<close> holds the cycle that has started and not settled: the outcome of
  \<^verbatim>\<open>getLastCheck\<close>, which has run when the callback is suspended.
\<close>

record poller =
  isFetching :: bool
  interval_set :: bool
  in_flight :: "(error + jsnum) option"
  wld :: world

text \<open>
  \<^verbatim>\<open>startPolling\<close> up to the end of its \<^verbatim>\<open>try\<close>: the first cycle is awaited, and
  \<^verbatim>\<open>setInterval\<close> is the statement after it, inside the same \<^verbatim>\<open>try\<close>.
\<close>

definition startPolling :: "platform \<Rightarrow> string \<Rightarrow> world \<Rightarrow> poller option" where
  "startPolling P org w =
     (case main P org w of
        None \<Rightarrow> None
      | Some (Inl e, w1) \<Rightarrow>
          Some \<lparr>isFetching = False, interval_set = False, in_flight = None,
                wld = w1\<lparr>console_error := console_error w1 @
                        [''Error during initial fetch: '' @ error_message e]\<rparr>\<rparr>
      | Some (Inr r, w1) \<Rightarrow>
          Some \<lparr>isFetching = False, interval_set = True, in_flight = None, wld = w1\<rparr>)"

text \<open>The callback from the tick to its first \<^verbatim>\<open>await\<close> (lines 224 to 232).\<close>

definition tick :: "platform \<Rightarrow> poller \<Rightarrow> poller" where
  "tick P s =
     (if isFetching s then s
      else s\<lparr>isFetching := True, in_flight := Some (getLastCheck P (wld s))\<rparr>)"

text \<open>
  The rest of the callback: the cycle goes on from the watermark it has read, an error
  is caught and logged, and \<^verbatim>\<open>finally\<close> clears the flag (lines 232 to 238).
\<close>

definition settle :: "platform \<Rightarrow> string \<Rightarrow> poller \<Rightarrow> poller option" where
  "settle P org s =
     (let failed = (\<lambda>e w. s\<lparr>isFetching := False, in_flight := None,
                       wld := w\<lparr>console_error := console_error w @
                               [''Error during fetch: '' @ error_message e]\<rparr>\<rparr>)
      in case in_flight s of
           None \<Rightarrow> Some s
         | Some (Inl e) \<Rightarrow> Some (failed e (wld s))
         | Some (Inr since) \<Rightarrow>
             (case getOrgCommits P (wld s) org since of
                None \<Rightarrow> None
              | Some (Inl e, w1) \<Rightarrow> Some (failed e w1)
              | Some (Inr r, w1) \<Rightarrow> Some (s\<lparr>isFetching := False, in_flight := None, wld := w1\<rparr>)))"

text \<open>
  What can happen after \<^verbatim>\<open>startPolling\<close>: the timer fires, if there is one, or the
  cycle in flight settles, if there is one.
\<close>

datatype event = Tick | Settle

inductive poll_step :: "platform \<Rightarrow> string \<Rightarrow> poller \<Rightarrow> event \<Rightarrow> poller \<Rightarrow> bool" where
  fire: "interval_set s \<Longrightarrow> poll_step P org s Tick (tick P s)"
| finish: "in_flight s = Some r \<Longrightarrow> settle P org s = Some s' \<Longrightarrow> poll_step P org s Settle s'"

text \<open>
  \<open>poll_step\<close> says what the callbacks do when they run. They run only while the
  process does: it has ended when a promise rejection was left unhandled.
\<close>

definition alive :: "poller \<Rightarrow> bool" where
  "alive s = (unhandled (wld s) = [])"

inductive process_step :: "platform \<Rightarrow> string \<Rightarrow> poller \<Rightarrow> event \<Rightarrow> poller \<Rightarrow> bool" where
  running: "alive s \<Longrightarrow> poll_step P org s ev s' \<Longrightarrow> process_step P org s ev s'"

text \<open>
  The states the poller can be in: after \<^verbatim>\<open>startPolling\<close>, and after any steps. The
  steps of a process that has ended are among them, so what holds in all of these states
  holds in those of the running process.
\<close>

inductive reachable :: "platform \<Rightarrow> string \<Rightarrow> world \<Rightarrow> poller \<Rightarrow> bool" where
  started: "startPolling P org w = Some s \<Longrightarrow> reachable P org w s"
| stepped: "reachable P org w s \<Longrightarrow> poll_step P org s ev s' \<Longrightarrow> reachable P org w s'"

section \<open>Notions the properties are stated with\<close>

text \<open>An entry the trim loop pops: its push instant is before the watermark.\<close>

definition older :: "jsnum \<Rightarrow> repo_info \<Rightarrow> bool" where
  "older since r = js_lt (pushed_at r) since"

definition fresh :: "int \<Rightarrow> repo_info \<Rightarrow> bool" where
  "fresh W r = (W \<le> pushed_at r)"

text \<open>A page without its longest run of trailing entries older than the watermark.\<close>

definition retained :: "jsnum \<Rightarrow> repo_info list \<Rightarrow> repo_info list" where
  "retained since page = rev (dropWhile (older since) (rev page))"

text \<open>A sequence of repositories sorted by push time, newest first.\<close>

definition descending :: "repo_info list \<Rightarrow> bool" where
  "descending R = sorted_wrt (\<lambda>a b. pushed_at b \<le> pushed_at a) R"

text \<open>
  The platform's paging: page \<open>n\<close> (counted from 1) of a sequence served \<open>k\<close> entries
  a page. The script asks for \<^verbatim>\<open>per_page=10\<close>.
\<close>

definition paged :: "nat \<Rightarrow> 'a list \<Rightarrow> nat \<Rightarrow> 'a list" where
  "paged k R n = take k (drop (k * (n - 1)) R)"

definition per_page :: nat where
  "per_page = 10"

text \<open>
  The number of pages the lister requests when \<open>m\<close> entries are at or after the
  watermark: the pages that hold them, and one more.
\<close>

definition pages_needed :: "nat \<Rightarrow> nat \<Rightarrow> nat" where
  "pages_needed k m = (m + k - 1) div k + 1"

text \<open>The state after the pages \<open>ns\<close> have been requested and awaited.\<close>

definition requested :: "platform \<Rightarrow> world \<Rightarrow> nat list \<Rightarrow> world" where
  "requested P w ns =
     w\<lparr>now := now w + int (latency P) * int (length ns), page_requests := page_requests w @ ns\<rparr>"

text \<open>The response to the commit request of a branch, as \<^verbatim>\<open>getBranchCommits\<close> sends it.\<close>

definition fetched :: "platform \<Rightarrow> repo_info \<Rightarrow> jsnum \<Rightarrow> branch_info \<Rightarrow> error + commit list" where
  "fetched P r since b =
     branch_commits P (owner_login r) (name r) (branch_name b) (ISODateString since)"

text \<open>
  What every step of a cycle before the watermark is written leaves of the state: the
  wall clock does not go back, \<^verbatim>\<open>data.json\<close> is as it was, and no rejection was left
  unhandled.
\<close>

definition later :: "world \<Rightarrow> world \<Rightarrow> bool" where
  "later w w' = (now w \<le> now w' \<and> data_json w' = data_json w \<and> unhandled w' = unhandled w)"

section \<open>Sample inputs\<close>

text \<open>
  An organisation of twelve repositories, pushed at seconds 12 down to 1, served ten a
  page. Repository \<open>l\<close> has three branches: \<open>main\<close> with one new commit, \<open>dev\<close> with
  none, and \<open>old\<close>, whose commit request fails. The branch request of repository \<open>k\<close>
  fails, every other repository has no branches, and the webhook refuses every post.
\<close>

definition acme_repo :: "string \<Rightarrow> int \<Rightarrow> repo_info" where
  "acme_repo n t = \<lparr>owner_login = ''acme'', name = n, pushed_at = t\<rparr>"

definition twelve_repos :: "repo_info list" where
  "twelve_repos =
     [acme_repo ''l'' 12000, acme_repo ''k'' 11000, acme_repo ''j'' 10000, acme_repo ''i'' 9000,
      acme_repo ''h'' 8000, acme_repo ''g'' 7000, acme_repo ''f'' 6000, acme_repo ''e'' 5000,
      acme_repo ''d'' 4000, acme_repo ''c'' 3000, acme_repo ''b'' 2000, acme_repo ''a'' 1000]"

definition sample_commit :: commit where
  "sample_commit =
     \<lparr>message = ''fix'', author_name = ''Ann'', author_date = ''2024-01-01T00:00:00Z'',
      author_login = Some ''ann'', html_url = ''https://example.org/c/1''\<rparr>"

definition acme :: "repo_info list \<Rightarrow> platform" where
  "acme R =
     \<lparr>org_repos = (\<lambda>org n. Inr (paged per_page R n)),
      repo_branches = (\<lambda>owner r.
        if r = ''l'' then Inr [\<lparr>branch_name = ''main''\<rparr>, \<lparr>branch_name = ''dev''\<rparr>,
                              \<lparr>branch_name = ''old''\<rparr>]
        else if r = ''k'' then Inl (RequestError ''timeout'')
        else Inr []),
      branch_commits = (\<lambda>owner r b since.
        if b = ''main'' then Inr [sample_commit]
        else if b = ''old'' then Inl (RequestError ''not found'')
        else Inr []),
      webhook = (\<lambda>msg. Some (RequestError ''503'')),
      latency = 250,
      date_parse = (\<lambda>t. NaN),
      locale_string = (\<lambda>t. t)\<rparr>"

text \<open>
  The state before a cycle: the wall clock at 20.4 seconds, the watermark at second 10,
  and a second key in \<^verbatim>\<open>data.json\<close>.
\<close>

definition start_world :: world where
  "start_world =
     \<lparr>now = 20400,
      data_json = Some [''last_checked'' \<mapsto> JDate (ISO 10), ''note'' \<mapsto> JOther ''keep''],
      commits_json = None, page_requests = [], notifier_calls = [], posts = [],
      console_error = [], unhandled = []\<rparr>"

text \<open>A platform whose repository listing fails, and one with two equal push instants.\<close>

definition broken :: platform where
  "broken = (acme [])\<lparr>org_repos := (\<lambda>org n. Inl (RequestError ''502''))\<rparr>"

definition twins :: "repo_info list" where
  "twins = [acme_repo ''x'' 10000, acme_repo ''y'' 10000]"

text \<open>
  The same state with a watermark at second 100, after the wall clock; and a poller whose
  timer exists and whose cycle, started at the watermark of second 10, has not settled.
\<close>

definition late_world :: world where
  "late_world = start_world\<lparr>data_json := Some [''last_checked'' \<mapsto> JDate (ISO 100)]\<rparr>"

definition busy_poller :: poller where
  "busy_poller =
     \<lparr>isFetching = True, interval_set = True, in_flight = Some (Inr (Num 10000)), wld = start_world\<rparr>"

text \<open>
  A commit whose author has no account, and the sample platform with such a commit as
  the only new commit of every branch \<open>main\<close>.
\<close>

definition ghost_commit :: commit where
  "ghost_commit = sample_commit\<lparr>author_login := None\<rparr>"

definition ghosted :: platform where
  "ghosted = (acme twelve_repos)\<lparr>branch_commits :=
     (\<lambda>owner r b since. if b = ''main'' then Inr [ghost_commit] else Inr [])\<rparr>"

section \<open>Properties of the Repository Lister\<close>

subsection \<open>The trim loop\<close>

lemma trim_loop_snoc:
  "trim_loop since (xs @ [x]) (int (length xs)) (pushed_at x) =
     (if older since x then
        (if xs = [] then ([], pushed_at x)
         else trim_loop since xs (int (length xs) - 1) (pushed_at (last xs)))
      else (xs @ [x], pushed_at x))"
proof -
  have idx: "nat (int (length xs) - 1) = length xs - 1" by simp
  show ?thesis
    by (subst trim_loop.simps) (simp add: older_def Let_def last_conv_nth idx)
qed

lemma retained_snoc:
  "retained since (xs @ [x]) = (if older since x then retained since xs else xs @ [x])"
  by (simp add: retained_def)

text \<open>
  Started as the script starts it, at the last index with that entry's push instant, the
  loop leaves the page without its trailing older entries; \<open>pushedAt\<close> is then the
  instant of the last entry left, or of the first entry when nothing is left.
\<close>

lemma trim_loop_retained:
  "page \<noteq> [] \<Longrightarrow>
   trim_loop since page (int (length page) - 1) (pushed_at (last page)) =
     (retained since page,
      if retained since page = [] then pushed_at (hd page)
      else pushed_at (last (retained since page)))"
proof (induction page rule: rev_induct)
  case Nil
  then show ?case by simp
next
  case (snoc x xs)
  show ?case
  proof (cases "older since x")
    case False
    then show ?thesis using trim_loop_snoc[of since xs x] by (simp add: retained_snoc)
  next
    case True
    show ?thesis
    proof (cases "xs = []")
      case True
      with \<open>older since x\<close> show ?thesis
        using trim_loop_snoc[of since xs x] by (simp add: retained_def)
    next
      case False
      with True snoc.IH show ?thesis
        using trim_loop_snoc[of since xs x] by (simp add: retained_snoc)
    qed
  qed
qed

lemma retained_Nil_iff: "retained since page = [] \<longleftrightarrow> (\<forall>r\<in>set page. older since r)"
  by (auto simp: retained_def dropWhile_eq_Nil_conv)

lemma retained_last:
  "retained since page \<noteq> [] \<Longrightarrow> \<not> older since (last (retained since page))"
proof (induction page rule: rev_induct)
  case Nil
  then show ?case by (simp add: retained_def)
next
  case (snoc x xs)
  then show ?case by (simp add: retained_snoc split: if_splits)
qed

text \<open>The test after the trim loop (line 172) is true exactly when the page was trimmed to nothing.\<close>

lemma trim_stop:
  assumes "page \<noteq> []"
  shows "js_lt (snd (trim_loop since page (int (length page) - 1) (pushed_at (last page)))) since
         \<longleftrightarrow> retained since page = []"
proof (cases "retained since page = []")
  case True
  then have "older since (hd page)" using assms by (simp add: retained_Nil_iff)
  with True show ?thesis using assms by (simp add: trim_loop_retained older_def)
next
  case False
  then show ?thesis
    using assms retained_last[OF False] by (simp add: trim_loop_retained older_def)
qed

subsection \<open>One turn of the page loop\<close>

lemma await_requested:
  "await P (w\<lparr>page_requests := page_requests w @ [n]\<rparr>) = requested P w [n]"
  by (simp add: await_def requested_def)

lemma requested_requested: "requested P (requested P w xs) ys = requested P w (xs @ ys)"
  by (simp add: requested_def algebra_simps)

lemma loop_fail:
  assumes "org_repos P org n = Inl e"
  shows "getOrgRepos_loop P org since acc n w = Some (Inl e, requested P w [n])"
  using assms by (subst getOrgRepos_loop.simps) (simp add: await_requested)

lemma loop_step:
  assumes "org_repos P org n = Inr page"
  shows "getOrgRepos_loop P org since acc n w =
     (if retained since page = [] then Some (Inr acc, requested P w [n])
      else getOrgRepos_loop P org since (acc @ retained since page) (n + 1) (requested P w [n]))"
proof (cases "page = []")
  case True
  then show ?thesis using assms
    by (subst getOrgRepos_loop.simps) (simp add: await_requested retained_def)
next
  case False
  have idx: "nat (int (length page) - 1) = length page - 1" by simp
  have lst: "page ! nat (int (length page) - 1) = last page"
    using False by (simp only: idx) (simp add: last_conv_nth)
  have stop: "js_lt (if retained since page = [] then pushed_at (hd page)
                     else pushed_at (last (retained since page))) since
              \<longleftrightarrow> retained since page = []"
    using trim_stop[OF False, of since] by (simp only: trim_loop_retained[OF False] snd_conv)
  show ?thesis using assms False
    by (subst getOrgRepos_loop.simps)
       (simp only: Let_def lst trim_loop_retained[OF False] await_requested stop
                   sum.case prod.case length_0_conv if_False append_Nil2 Suc_eq_plus1
              split: if_splits, simp)
qed

text \<open>
  Whenever the loop returns, the state is the one it started in, with the requested
  pages logged and awaited; the first of them is the page it started at.
\<close>

lemma loop_requested_aux:
  assumes "getOrgRepos_loop P org since acc n w = Some y"
  shows "\<exists>ns. snd y = requested P w (n # ns)"
proof -
  let ?Q = "\<lambda>a y. case a of (((((P, org :: string), since :: jsnum), acc :: repo_info list), n), w) \<Rightarrow>
              \<exists>ns. snd (y :: (error + repo_info list) \<times> world) = requested P w (n # ns)"
  have "?Q (((((P, org), since), acc), n), w) y"
  proof (rule getOrgRepos_loop.raw_induct[where Pa = "?Q", OF _ assms])
    fix loop P org since acc n w and y :: "(error + repo_info list) \<times> world"
    assume IH: "\<And>P org since acc n w y. loop P org since acc n w = Some y \<Longrightarrow>
                  ?Q (((((P, org), since), acc), n), w) y"
    assume body: "(let w1 = await P (w\<lparr>page_requests := page_requests w @ [n]\<rparr>)
      in case org_repos P org n of
           Inl e \<Rightarrow> Some (Inl e, w1)
         | Inr repoListPage \<Rightarrow>
             if length repoListPage = 0 then Some (Inr acc, w1)
             else
               let index = int (length repoListPage) - 1;
                   pushedAt = pushed_at (repoListPage ! nat index)
               in case trim_loop since repoListPage index pushedAt of
                    (page', pushedAt') \<Rightarrow>
                      let repoList' = acc @ page'
                      in if js_lt pushedAt' since then Some (Inr repoList', w1)
                         else loop P org since repoList' (n + 1) w1) = Some y"
    have "\<exists>ns. snd y = requested P w (n # ns)"
    proof (cases "org_repos P org n")
      case (Inl e)
      with body have "snd y = requested P w [n]" by (auto simp: await_requested)
      then show ?thesis by blast
    next
      case (Inr page)
      show ?thesis
      proof (cases "page = []")
        case True
        with Inr body have "snd y = requested P w [n]" by (auto simp: await_requested)
        then show ?thesis by blast
      next
        case False
        obtain page' pushedAt' where t: "trim_loop since page (int (length page) - 1)
            (pushed_at (page ! nat (int (length page) - 1))) = (page', pushedAt')"
          by (cases "trim_loop since page (int (length page) - 1)
            (pushed_at (page ! nat (int (length page) - 1)))") auto
        show ?thesis
        proof (cases "js_lt pushedAt' since")
          case True
          with Inr False t body have "snd y = requested P w [n]"
            by (auto simp: await_requested Let_def)
          then show ?thesis by blast
        next
          case nostop: False
          with Inr False t body
          have "loop P org since (acc @ page') (n + 1) (requested P w [n]) = Some y"
            by (simp add: await_requested Let_def)
          from IH[OF this] obtain ns where "snd y = requested P (requested P w [n]) ((n + 1) # ns)"
            by auto
          then have "snd y = requested P w (n # (n + 1) # ns)" by (simp add: requested_requested)
          then show ?thesis by blast
        qed
      qed
    qed
    then show "?Q (((((P, org), since), acc), n), w) y" by simp
  qed
  then show ?thesis by simp
qed

lemma loop_requested:
  "getOrgRepos_loop P org since acc n w = Some (res, w') \<Longrightarrow> \<exists>ns. w' = requested P w (n # ns)"
  using loop_requested_aux[of P org since acc n w "(res, w')"] by simp

text \<open>A list the loop returns starts with the entries it had accumulated.\<close>

lemma loop_result_aux:
  assumes "getOrgRepos_loop P org since acc n w = Some y"
  shows "\<forall>rs. fst y = Inr rs \<longrightarrow> (\<exists>rest. rs = acc @ rest)"
proof -
  let ?Q = "\<lambda>a y. case a of (((((P :: platform, org :: string), since :: jsnum), acc :: repo_info list), n :: nat), w :: world) \<Rightarrow>
              \<forall>rs. fst (y :: (error + repo_info list) \<times> world) = Inr rs \<longrightarrow> (\<exists>rest. rs = acc @ rest)"
  have "?Q (((((P, org), since), acc), n), w) y"
  proof (rule getOrgRepos_loop.raw_induct[where Pa = "?Q", OF _ assms])
    fix loop P org since acc n w and y :: "(error + repo_info list) \<times> world"
    assume IH: "\<And>P org since acc n w y. loop P org since acc n w = Some y \<Longrightarrow>
                  ?Q (((((P, org), since), acc), n), w) y"
    assume body: "(let w1 = await P (w\<lparr>page_requests := page_requests w @ [n]\<rparr>)
      in case org_repos P org n of
           Inl e \<Rightarrow> Some (Inl e, w1)
         | Inr repoListPage \<Rightarrow>
             if length repoListPage = 0 then Some (Inr acc, w1)
             else
               let index = int (length repoListPage) - 1;
                   pushedAt = pushed_at (repoListPage ! nat index)
               in case trim_loop since repoListPage index pushedAt of
                    (page', pushedAt') \<Rightarrow>
                      let repoList' = acc @ page'
                      in if js_lt pushedAt' since then Some (Inr repoList', w1)
                         else loop P org since repoList' (n + 1) w1) = Some y"
    have "\<forall>rs. fst y = Inr rs \<longrightarrow> (\<exists>rest. rs = acc @ rest)"
    proof (cases "org_repos P org n")
      case (Inl e)
      with body show ?thesis by auto
    next
      case (Inr page)
      show ?thesis
      proof (cases "page = []")
        case True
        with Inr body show ?thesis by auto
      next
        case False
        obtain page' pushedAt' where t: "trim_loop since page (int (length page) - 1)
            (pushed_at (page ! nat (int (length page) - 1))) = (page', pushedAt')"
          by (cases "trim_loop since page (int (length page) - 1)
            (pushed_at (page ! nat (int (length page) - 1)))") auto
        show ?thesis
        proof (cases "js_lt pushedAt' since")
          case True
          with Inr False t body show ?thesis by (auto simp: Let_def)
        next
          case nostop: False
          with Inr False t body
          have "loop P org since (acc @ page') (n + 1) (requested P w [n]) = Some y"
            by (simp add: await_requested Let_def)
          from IH[OF this] have "\<forall>rs. fst y = Inr rs \<longrightarrow> (\<exists>rest. rs = (acc @ page') @ rest)"
            by simp
          then show ?thesis by auto
        qed
      qed
    qed
    then show "?Q (((((P, org), since), acc), n), w) y" by simp
  qed
  then show ?thesis by simp
qed

lemma loop_result:
  "getOrgRepos_loop P org since acc n w = Some (Inr rs, w') \<Longrightarrow> \<exists>rest. rs = acc @ rest"
  using loop_result_aux[of P org since acc n w "(Inr rs, w')"] by simp

subsection \<open>A page whose entries all equal the watermark\<close>

text \<open>
  C9: when every entry of a fetched page has a push instant equal to the watermark, the
  trim loop removes nothing (it returns the page as it is), the whole page is appended
  to the result, and the listing does not stop at that page: the loop goes on with the
  next page number, so that whenever the listing returns, the next page is in the trace
  of the requests right after this one and the list returned holds the page after the
  entries accumulated before it. The test is a strict \<open><\<close>.
\<close>

theorem all_equal_page_continues:
  assumes "org_repos P org n = Inr page" and "page \<noteq> []"
    and "\<forall>r\<in>set page. pushed_at r = W"
  shows "trim_loop (Num W) page (int (length page) - 1) (pushed_at (last page)) = (page, W)
       \<and> getOrgRepos_loop P org (Num W) acc n w =
           getOrgRepos_loop P org (Num W) (acc @ page) (n + 1) (requested P w [n])
       \<and> (\<forall>res w'. getOrgRepos_loop P org (Num W) acc n w = Some (res, w') \<longrightarrow>
             (\<exists>ns. page_requests w' = page_requests w @ n # (n + 1) # ns)
             \<and> (\<forall>rs. res = Inr rs \<longrightarrow> (\<exists>rest. rs = acc @ page @ rest)))"
proof -
  have no: "\<not> older (Num W) (last page)"
    using assms(2,3) by (simp add: older_def js_lt_def)
  have ret: "retained (Num W) page = page"
    using assms(2) no by (cases page rule: rev_cases) (simp_all add: retained_snoc)
  have lastW: "pushed_at (last page) = W" using assms(2,3) by simp
  have trim: "trim_loop (Num W) page (int (length page) - 1) (pushed_at (last page)) = (page, W)"
    using trim_loop_retained[OF assms(2), of "Num W"] assms(2) by (simp add: ret lastW)
  have step: "getOrgRepos_loop P org (Num W) acc n w =
           getOrgRepos_loop P org (Num W) (acc @ page) (n + 1) (requested P w [n])"
    using loop_step[OF assms(1), of "Num W" acc w] assms(2) by (simp add: ret)
  have "(\<exists>ns. page_requests w' = page_requests w @ n # (n + 1) # ns)
        \<and> (\<forall>rs. res = Inr rs \<longrightarrow> (\<exists>rest. rs = acc @ page @ rest))"
    if "getOrgRepos_loop P org (Num W) acc n w = Some (res, w')" for res w'
  proof
    from that step
    have run: "getOrgRepos_loop P org (Num W) (acc @ page) (n + 1) (requested P w [n]) = Some (res, w')"
      by simp
    from loop_requested[OF run] obtain ns where "w' = requested P (requested P w [n]) ((n + 1) # ns)"
      by blast
    then have "page_requests w' = page_requests w @ n # (n + 1) # ns"
      by (simp add: requested_def)
    then show "\<exists>ns. page_requests w' = page_requests w @ n # (n + 1) # ns" by blast
    show "\<forall>rs. res = Inr rs \<longrightarrow> (\<exists>rest. rs = acc @ page @ rest)"
    proof (intro allI impI)
      fix rs assume "res = Inr rs"
      with run loop_result[of P org "Num W" "acc @ page" "n + 1" "requested P w [n]" rs w']
      show "\<exists>rest. rs = acc @ page @ rest" by simp
    qed
  qed
  with trim step show ?thesis by blast
qed

lemma twins_page: "org_repos (acme twins) ''acme'' 1 = Inr twins"
  by (simp add: acme_def paged_def per_page_def twins_def)

theorem all_equal_page_continues_witness:
  "trim_loop (Num 10000) twins 1 10000 = (twins, 10000)
   \<and> getOrgRepos (acme twins) start_world ''acme'' (Num 10000) =
       Some (Inr twins, requested (acme twins) start_world [1, 2])"
proof -
  have p2: "org_repos (acme twins) ''acme'' 2 = Inr []"
    by (simp add: acme_def paged_def per_page_def twins_def)
  have eq: "\<forall>r\<in>set twins. pushed_at r = 10000" by (simp add: twins_def acme_repo_def)
  have ne: "twins \<noteq> []" by (simp add: twins_def)
  from all_equal_page_continues[OF twins_page ne eq, of "[]" start_world]
  have a: "trim_loop (Num 10000) twins (int (length twins) - 1) (pushed_at (last twins)) = (twins, 10000)"
    and b: "getOrgRepos_loop (acme twins) ''acme'' (Num 10000) [] 1 start_world =
           getOrgRepos_loop (acme twins) ''acme'' (Num 10000) ([] @ twins) (1 + 1)
             (requested (acme twins) start_world [1])"
    by blast+
  have c: "getOrgRepos_loop (acme twins) ''acme'' (Num 10000) twins 2 (requested (acme twins) start_world [1])
        = Some (Inr twins, requested (acme twins) start_world [1, 2])"
    using loop_step[OF p2, of "Num 10000" twins "requested (acme twins) start_world [1]"]
    by (simp add: retained_def requested_requested)
  have l: "int (length twins) - 1 = 1" "pushed_at (last twins) = 10000"
    by (simp_all add: twins_def acme_repo_def)
  show ?thesis using a b c by (simp add: getOrgRepos_def l numeral_2_eq_2)
qed

subsection \<open>A descending sequence served in pages\<close>

lemma older_Num: "older (Num W) r \<longleftrightarrow> \<not> fresh W r"
  by (auto simp: older_def fresh_def js_lt_def)

lemma retained_descending:
  "descending page \<Longrightarrow> retained (Num W) page = filter (fresh W) page"
proof (induction page rule: rev_induct)
  case Nil
  then show ?case by (simp add: retained_def)
next
  case (snoc x xs)
  from snoc.prems have d: "descending xs" and le: "\<forall>a\<in>set xs. pushed_at x \<le> pushed_at a"
    by (auto simp: descending_def sorted_wrt_append)
  show ?case
  proof (cases "fresh W x")
    case True
    with le have "\<forall>a\<in>set xs. fresh W a" by (auto simp: fresh_def)
    then have "filter (fresh W) xs = xs" by (simp add: filter_id_conv)
    with True show ?thesis by (simp add: retained_snoc older_Num)
  next
    case False
    with snoc.IH[OF d] show ?thesis by (simp add: retained_snoc older_Num)
  qed
qed

lemma descending_split:
  "descending (A @ B) \<Longrightarrow>
   descending A \<and> descending B \<and> (\<forall>a\<in>set A. \<forall>b\<in>set B. pushed_at b \<le> pushed_at a)"
  by (auto simp: descending_def sorted_wrt_append)

lemma ceil_one:
  assumes "0 < j" "j \<le> k"
  shows "(j + k - 1) div k = (1::nat)"
proof -
  have e: "j + k - 1 = k + (j - 1)" using assms by simp
  have "(k + (j - 1)) div k = (j - 1) div k + 1"
    by (rule div_add_self1) (use assms in simp)
  moreover have "(j - 1) div k = 0" using assms by simp
  ultimately show ?thesis by (simp only: e)
qed

lemma ceil_step:
  assumes "0 < (k::nat)"
  shows "(k + m + k - 1) div k = (m + k - 1) div k + 1"
proof -
  have e: "k + m + k - 1 = k + (m + k - 1)" using assms by simp
  have "(k + (m + k - 1)) div k = (m + k - 1) div k + 1"
    by (rule div_add_self1) (use assms in simp)
  then show ?thesis by (simp only: e)
qed

lemma loop_paged:
  assumes k: "0 < k" and d: "descending R"
    and serve: "\<And>n. org_repos P org n = Inr (paged k R n)"
  shows "1 \<le> n \<Longrightarrow>
     getOrgRepos_loop P org (Num W) acc n w =
       Some (Inr (acc @ filter (fresh W) (drop (k * (n - 1)) R)),
             requested P w [n ..< n + pages_needed k (length (filter (fresh W) (drop (k * (n - 1)) R)))])"
proof (induction "length (drop (k * (n - 1)) R)" arbitrary: n acc w rule: less_induct)
  case less
  define S where "S = drop (k * (n - 1)) R"
  define page where "page = take k S"
  define S' where "S' = drop k S"
  have S: "S = page @ S'" by (simp add: page_def S'_def)
  have S'_eq: "S' = drop (k * (Suc n - 1)) R"
    using less.prems by (simp add: S'_def S_def algebra_simps)
  have dS: "descending S" using d by (simp add: S_def descending_def sorted_wrt_drop)
  from descending_split[OF dS[unfolded S]]
  have dp: "descending page" and cross: "\<forall>a\<in>set page. \<forall>b\<in>set S'. pushed_at b \<le> pushed_at a"
    by auto
  have pg: "org_repos P org n = Inr page" by (simp add: serve paged_def page_def S_def)
  have ret: "retained (Num W) page = filter (fresh W) page" by (rule retained_descending[OF dp])
  note step = loop_step[OF pg, of "Num W" acc w, unfolded ret]
  show ?case
  proof (cases "filter (fresh W) page = []")
    case True
    have "filter (fresh W) S' = []"
    proof (cases "page = []")
      case True
      then have "S = []" using k by (auto simp: page_def)
      then show ?thesis by (simp add: S'_def)
    next
      case False
      then obtain a where a: "a \<in> set page" by (cases page) auto
      with True have "\<not> fresh W a" by (auto simp: filter_empty_conv)
      with cross a have "\<forall>b\<in>set S'. \<not> fresh W b" by (fastforce simp: fresh_def)
      then show ?thesis by (simp add: filter_empty_conv)
    qed
    with True have e: "filter (fresh W) S = []" by (simp add: S)
    have "pages_needed k 0 = 1" using k by (simp add: pages_needed_def)
    then have "getOrgRepos_loop P org (Num W) acc n w =
       Some (Inr (acc @ filter (fresh W) S),
             requested P w [n ..< n + pages_needed k (length (filter (fresh W) S))])"
      using step True by (simp add: e)
    then show ?thesis by (simp only: S_def)
  next
    case False
    then have "page \<noteq> []" by auto
    then have lt: "length S' < length S" using k by (auto simp: S'_def page_def)
    have IH: "getOrgRepos_loop P org (Num W) (acc @ filter (fresh W) page) (Suc n) (requested P w [n]) =
       Some (Inr ((acc @ filter (fresh W) page) @ filter (fresh W) S'),
             requested P (requested P w [n]) [Suc n ..< Suc n + pages_needed k (length (filter (fresh W) S'))])"
      using less.hyps[of "Suc n" "acc @ filter (fresh W) page" "requested P w [n]"] lt
      unfolding S'_eq[symmetric] S_def[symmetric] by simp
    have cnt: "pages_needed k (length (filter (fresh W) S)) = Suc (pages_needed k (length (filter (fresh W) S')))"
    proof (cases "filter (fresh W) S' = []")
      case True
      have "length (filter (fresh W) page) \<le> k"
        by (rule order_trans[OF length_filter_le]) (simp add: page_def)
      moreover have "0 < length (filter (fresh W) page)" using False by simp
      ultimately have "(length (filter (fresh W) page) + k - 1) div k = 1" by (rule ceil_one[rotated])
      with True show ?thesis using k by (simp add: S pages_needed_def)
    next
      case False
      then obtain b where b: "b \<in> set S'" "fresh W b" by (auto simp: filter_empty_conv)
      with cross have "\<forall>a\<in>set page. fresh W a" by (fastforce simp: fresh_def)
      then have all: "filter (fresh W) page = page" by (simp add: filter_id_conv)
      from b have "S' \<noteq> []" by auto
      then have "length page = k" by (auto simp: S'_def page_def min_def)
      with all show ?thesis using ceil_step[OF k] by (simp add: S pages_needed_def)
    qed
    have upt: "[n] @ [Suc n ..< Suc n + c] = [n ..< n + Suc c]" for c
      by (simp add: upt_conv_Cons)
    have r1: "getOrgRepos_loop P org (Num W) acc n w =
        getOrgRepos_loop P org (Num W) (acc @ filter (fresh W) page) (Suc n) (requested P w [n])"
      using step False by simp
    have w_eq: "requested P (requested P w [n]) [Suc n ..< Suc n + c] = requested P w [n ..< n + Suc c]" for c
      by (simp only: requested_requested upt)
    have l_eq: "(acc @ filter (fresh W) page) @ filter (fresh W) S' = acc @ filter (fresh W) S"
      by (simp add: S)
    have "getOrgRepos_loop P org (Num W) acc n w =
       Some (Inr (acc @ filter (fresh W) S),
             requested P w [n ..< n + pages_needed k (length (filter (fresh W) S))])"
      by (simp only: r1 IH w_eq l_eq cnt)
    then show ?thesis by (simp only: S_def)
  qed
qed

text \<open>In a descending sequence the entries at or after the watermark are a prefix.\<close>

lemma fresh_prefix:
  "descending R \<Longrightarrow> p < length (filter (fresh W) R) \<Longrightarrow> fresh W (R ! p)"
proof (induction R arbitrary: p)
  case Nil
  then show ?case by simp
next
  case (Cons x xs)
  from Cons.prems(1) have d: "descending xs" and le: "\<forall>a\<in>set xs. pushed_at a \<le> pushed_at x"
    by (auto simp: descending_def)
  show ?case
  proof (cases "fresh W x")
    case True
    with Cons.IH[OF d] Cons.prems(2) show ?thesis by (cases p) auto
  next
    case False
    with le have "\<forall>a\<in>set xs. \<not> fresh W a" by (auto simp: fresh_def)
    then have "filter (fresh W) xs = []" by (simp add: filter_empty_conv)
    with False Cons.prems(2) show ?thesis by simp
  qed
qed

lemma paged_has_fresh:
  assumes d: "descending R" and k: "0 < k" and i: "1 \<le> i"
    and i2: "i < j" "j < 1 + pages_needed k (length (filter (fresh W) R))"
  shows "\<exists>r\<in>set (paged k R i). fresh W r"
proof -
  let ?m = "length (filter (fresh W) R)"
  have "i \<le> (?m + k - 1) div k" using i2 by (simp add: pages_needed_def)
  then have "i * k \<le> ?m + k - 1" using k by (simp add: less_eq_div_iff_mult_less_eq)
  then have p: "k * (i - 1) < ?m" using i k by (cases i) (auto simp: algebra_simps)
  have "?m \<le> length R" by simp
  with p have pl: "k * (i - 1) < length R" by linarith
  have "fresh W (R ! (k * (i - 1)))" by (rule fresh_prefix[OF d p])
  moreover have "R ! (k * (i - 1)) \<in> set (paged k R i)"
  proof -
    have "drop (k * (i - 1)) R \<noteq> []" using pl by simp
    then have "hd (drop (k * (i - 1)) R) \<in> set (take k (drop (k * (i - 1)) R))"
      using k by (cases "drop (k * (i - 1)) R"; cases k) auto
    then show ?thesis using pl by (simp add: paged_def hd_drop_conv_nth)
  qed
  ultimately show ?thesis by blast
qed

lemma fresh_abs: "fresh W = (\<lambda>r. W \<le> pushed_at r)"
  by (rule ext) (simp add: fresh_def)

lemma descending_twelve: "descending twelve_repos"
  by (simp add: descending_def twelve_repos_def acme_repo_def)

text \<open>
  C3: for every watermark \<open>W\<close> and every sequence \<open>R\<close> of repositories sorted descending
  by push time, which the platform serves ten a page, the lister returns exactly the
  entries of \<open>R\<close> whose push instant is at or after \<open>W\<close> (an instant equal to \<open>W\<close> is
  kept), in the order of \<open>R\<close>, which is descending. The pages it requests are 1 up to
  the number of pages that hold those entries, and one more; every page before a
  requested page holds an entry at or after \<open>W\<close>, so no page beyond the first page whose
  entries are all older than \<open>W\<close> is fetched.
\<close>

theorem lister_returns_fresh_subset:
  assumes "descending R" and "\<forall>n. org_repos P org n = Inr (paged per_page R n)"
  shows "getOrgRepos P w org (Num W) =
           Some (Inr (filter (\<lambda>r. W \<le> pushed_at r) R),
                 requested P w [1 ..< 1 + pages_needed per_page (length (filter (\<lambda>r. W \<le> pushed_at r) R))])
       \<and> descending (filter (\<lambda>r. W \<le> pushed_at r) R)
       \<and> (\<forall>j\<in>set [1 ..< 1 + pages_needed per_page (length (filter (\<lambda>r. W \<le> pushed_at r) R))].
            \<forall>i. 1 \<le> i \<and> i < j \<longrightarrow> (\<exists>r\<in>set (paged per_page R i). W \<le> pushed_at r))"
proof -
  have k: "0 < per_page" by (simp add: per_page_def)
  have serve: "\<And>n. org_repos P org n = Inr (paged per_page R n)" using assms(2) by simp
  have "getOrgRepos_loop P org (Num W) [] 1 w =
       Some (Inr ([] @ filter (fresh W) (drop (per_page * (1 - 1)) R)),
             requested P w [1 ..< 1 + pages_needed per_page
               (length (filter (fresh W) (drop (per_page * (1 - 1)) R)))])"
    by (rule loop_paged[OF k assms(1) serve]) simp
  then have a: "getOrgRepos P w org (Num W) =
           Some (Inr (filter (fresh W) R),
                 requested P w [1 ..< 1 + pages_needed per_page (length (filter (fresh W) R))])"
    by (simp add: getOrgRepos_def)
  have b: "descending (filter (fresh W) R)"
    using assms(1) by (simp add: descending_def sorted_wrt_filter)
  have c: "\<exists>r\<in>set (paged per_page R i). fresh W r"
    if "j \<in> set [1 ..< 1 + pages_needed per_page (length (filter (fresh W) R))]" "1 \<le> i" "i < j"
    for i j
  proof -
    from that(1) have "j < 1 + pages_needed per_page (length (filter (fresh W) R))"
      by (simp only: set_upt atLeastLessThan_iff)
    then show ?thesis by (rule paged_has_fresh[OF assms(1) k that(2) that(3)])
  qed
  from a b c show ?thesis unfolding fresh_abs fresh_def by blast
qed

theorem lister_returns_fresh_subset_witness:
  "getOrgRepos (acme twelve_repos) start_world ''acme'' (Num 1500) =
     Some (Inr (butlast twelve_repos), requested (acme twelve_repos) start_world [1, 2, 3])
   \<and> descending (butlast twelve_repos)
   \<and> list_all (\<lambda>i. list_ex (\<lambda>r. 1500 \<le> pushed_at r) (paged per_page twelve_repos i)) [1, 2]"
proof -
  have serve: "\<forall>n. org_repos (acme twelve_repos) ''acme'' n = Inr (paged per_page twelve_repos n)"
    by (simp add: acme_def)
  have f: "filter (\<lambda>r. 1500 \<le> pushed_at r) twelve_repos = butlast twelve_repos"
    by (simp add: twelve_repos_def acme_repo_def)
  have n: "pages_needed per_page (length (butlast twelve_repos)) = 3"
    by (simp add: pages_needed_def per_page_def twelve_repos_def)
  have u: "[1 ..< 1 + 3] = [1, 2, 3::nat]" by (simp add: upt_rec)
  have p: "list_all (\<lambda>i. list_ex (\<lambda>r. 1500 \<le> pushed_at r) (paged per_page twelve_repos i)) [1, 2]"
    by (simp add: paged_def per_page_def twelve_repos_def acme_repo_def)
  from lister_returns_fresh_subset[OF descending_twelve serve, of start_world 1500]
  show ?thesis unfolding f n u using p by blast
qed

subsection \<open>A first page with trailing older entries\<close>

lemma retained_append_older:
  "\<forall>r\<in>set old. older since r \<Longrightarrow> retained since (kept @ old) = retained since kept"
  by (simp add: retained_def dropWhile_append)

lemma retained_all_kept:
  assumes "\<forall>r\<in>set kept. \<not> older since r"
  shows "retained since kept = kept"
  using assms by (cases kept rule: rev_cases) (simp_all add: retained_snoc retained_def)

text \<open>
  C2, as amended: for every watermark \<open>W\<close> and every descending sequence of pages whose
  first page ends in entries older than \<open>W\<close>, but does not consist of them, the lister
  returns that page without those trailing entries, and it does request the second
  page: the test on line 172 reads the push instant of the last entry kept, which is
  not older than \<open>W\<close>. The second page, empty or older than \<open>W\<close> throughout, ends the
  listing, so the requests are those of pages 1 and 2.
\<close>

theorem trailing_older_first_page:
  assumes "org_repos P org 1 = Inr (kept @ old)" and "kept \<noteq> []" and "old \<noteq> []"
    and "\<forall>r\<in>set kept. W \<le> pushed_at r" and "\<forall>r\<in>set old. pushed_at r < W"
    and "org_repos P org 2 = Inr second_page"
    and "descending (kept @ old @ second_page)"
  shows "getOrgRepos P w org (Num W) = Some (Inr kept, requested P w [1, 2])"
proof -
  have o: "\<forall>r\<in>set old. older (Num W) r" using assms(5) by (simp add: older_def js_lt_def)
  have f: "\<forall>r\<in>set kept. \<not> older (Num W) r" using assms(4) by (auto simp: older_def js_lt_def)
  have r1: "retained (Num W) (kept @ old) = kept"
    by (simp only: retained_append_older[OF o] retained_all_kept[OF f])
  obtain x where x: "x \<in> set old" using assms(3) by (cases old) auto
  have "\<forall>b\<in>set second_page. pushed_at b \<le> pushed_at x"
    using assms(7) x by (auto simp: descending_def sorted_wrt_append)
  with o x have "\<forall>b\<in>set second_page. older (Num W) b"
    by (fastforce simp: older_def js_lt_def)
  then have r2: "retained (Num W) second_page = []" by (simp add: retained_Nil_iff)
  have s1: "getOrgRepos_loop P org (Num W) [] 1 w =
      getOrgRepos_loop P org (Num W) kept 2 (requested P w [1])"
    using loop_step[OF assms(1), of "Num W" "[]" w]
    by (simp only: r1 assms(2) if_False append_Nil one_add_one)
  have s2: "getOrgRepos_loop P org (Num W) kept 2 (requested P w [1]) =
      Some (Inr kept, requested P w [1, 2])"
    using loop_step[OF assms(6), of "Num W" kept "requested P w [1]"]
    by (simp add: r2 requested_requested)
  show ?thesis by (simp only: getOrgRepos_def s1 s2)
qed

theorem trailing_older_first_page_witness:
  "getOrgRepos (acme twelve_repos) start_world ''acme'' (Num 5500) =
     Some (Inr (take 7 twelve_repos), requested (acme twelve_repos) start_world [1, 2])"
proof -
  have p1: "org_repos (acme twelve_repos) ''acme'' 1 =
      Inr (take 7 twelve_repos @ drop 7 (take 10 twelve_repos))"
    by (simp add: acme_def paged_def per_page_def twelve_repos_def)
  have p2: "org_repos (acme twelve_repos) ''acme'' 2 = Inr (drop 10 twelve_repos)"
    by (simp add: acme_def paged_def per_page_def twelve_repos_def)
  have ne: "take 7 twelve_repos \<noteq> []" "drop 7 (take 10 twelve_repos) \<noteq> []"
    by (simp_all add: twelve_repos_def)
  have fr: "\<forall>r\<in>set (take 7 twelve_repos). 5500 \<le> pushed_at r"
    by (simp add: twelve_repos_def acme_repo_def)
  have ol: "\<forall>r\<in>set (drop 7 (take 10 twelve_repos)). pushed_at r < 5500"
    by (simp add: twelve_repos_def acme_repo_def)
  have d: "descending (take 7 twelve_repos @ drop 7 (take 10 twelve_repos) @ drop 10 twelve_repos)"
    by (simp add: descending_def twelve_repos_def acme_repo_def)
  show ?thesis
    by (rule trailing_older_first_page[OF p1 ne fr ol p2 d])
qed

text \<open>
  C2 as stated fails: the first of the twelve sample repositories' pages has ten
  entries, the last three older than the watermark 5.5 seconds; the lister returns the
  other seven, and the trace of its requests holds page 2.
\<close>

theorem trailing_older_first_page_counterexample:
  "descending twelve_repos
   \<and> paged per_page twelve_repos 1 = take 7 twelve_repos @ drop 7 (take 10 twelve_repos)
   \<and> length (drop 7 (take 10 twelve_repos)) = 3
   \<and> list_all (\<lambda>r. pushed_at r < 5500) (drop 7 (take 10 twelve_repos))
   \<and> list_all (\<lambda>r. 5500 \<le> pushed_at r) (take 7 twelve_repos)
   \<and> map_option fst (getOrgRepos (acme twelve_repos) start_world ''acme'' (Num 5500)) =
       Some (Inr (take 7 twelve_repos))
   \<and> map_option (page_requests \<circ> snd) (getOrgRepos (acme twelve_repos) start_world ''acme'' (Num 5500)) =
       Some [1, 2]"
proof -
  have k: "0 < per_page" by (simp add: per_page_def)
  have serve: "\<And>n. org_repos (acme twelve_repos) ''acme'' n = Inr (paged per_page twelve_repos n)"
    by (simp add: acme_def)
  have f: "filter (fresh 5500) twelve_repos = take 7 twelve_repos"
    by (simp add: twelve_repos_def acme_repo_def fresh_def)
  have n: "pages_needed per_page (length (take 7 twelve_repos)) = 2"
    by (simp add: pages_needed_def per_page_def twelve_repos_def)
  have u: "[1 ..< 1 + 2] = [1, 2::nat]" by (simp add: upt_rec)
  have "getOrgRepos_loop (acme twelve_repos) ''acme'' (Num 5500) [] 1 start_world =
       Some (Inr ([] @ filter (fresh 5500) (drop (per_page * (1 - 1)) twelve_repos)),
             requested (acme twelve_repos) start_world [1 ..< 1 + pages_needed per_page
               (length (filter (fresh 5500) (drop (per_page * (1 - 1)) twelve_repos)))])"
    by (rule loop_paged[OF k descending_twelve serve]) simp
  then have run: "getOrgRepos (acme twelve_repos) start_world ''acme'' (Num 5500) =
      Some (Inr (take 7 twelve_repos), requested (acme twelve_repos) start_world [1, 2])"
    by (simp only: getOrgRepos_def append_Nil diff_self_eq_0 mult_0_right drop_0 f n u)
  have rq: "page_requests (requested (acme twelve_repos) start_world [1, 2]) = [1, 2]"
    by (simp add: requested_def start_world_def)
  have pg: "paged per_page twelve_repos 1 = take 7 twelve_repos @ drop 7 (take 10 twelve_repos)"
    by (simp add: paged_def per_page_def twelve_repos_def)
  have rest: "length (drop 7 (take 10 twelve_repos)) = 3"
    "list_all (\<lambda>r. pushed_at r < 5500) (drop 7 (take 10 twelve_repos))"
    "list_all (\<lambda>r. 5500 \<le> pushed_at r) (take 7 twelve_repos)"
    by (simp_all add: twelve_repos_def acme_repo_def)
  have m1: "map_option fst (getOrgRepos (acme twelve_repos) start_world ''acme'' (Num 5500)) =
       Some (Inr (take 7 twelve_repos))"
    by (simp only: run option.map fst_conv)
  have m2: "map_option (page_requests \<circ> snd)
       (getOrgRepos (acme twelve_repos) start_world ''acme'' (Num 5500)) = Some [1, 2]"
    by (simp only: run option.map comp_apply snd_conv rq)
  show ?thesis by (intro conjI descending_twelve pg rest m1 m2)
qed

section \<open>Properties of the Notifier and the Branch/Commit Fetcher\<close>

subsection \<open>What each function returns and leaves behind\<close>

lemma later_refl: "later w w"
  by (simp add: later_def)

lemma later_trans: "later a b \<Longrightarrow> later b c \<Longrightarrow> later a c"
  by (auto simp: later_def)

lemma later_await: "later w (await P w)"
  by (simp add: later_def await_def)

lemma later_requested: "later w (requested P w ns)"
  by (simp add: later_def requested_def)

subsection \<open>sendToDiscord\<close>

lemma sendToDiscord_fst:
  "fst (sendToDiscord P w rn bn cs) =
     (case build_message P rn bn cs of Inl e \<Rightarrow> Inl e | Inr msg \<Rightarrow> Inr ())"
  by (simp add: sendToDiscord_def Let_def split: sum.splits option.splits)

lemma sendToDiscord_calls:
  "notifier_calls (snd (sendToDiscord P w rn bn cs)) = notifier_calls w @ [(rn, bn, cs)]"
  by (simp add: sendToDiscord_def Let_def await_def split: sum.splits option.splits)

lemma sendToDiscord_posts:
  "posts (snd (sendToDiscord P w rn bn cs)) =
     (case build_message P rn bn cs of Inl e \<Rightarrow> posts w | Inr msg \<Rightarrow> posts w @ [msg])"
  by (simp add: sendToDiscord_def Let_def await_def split: sum.splits option.splits)

lemma sendToDiscord_later: "later w (snd (sendToDiscord P w rn bn cs))"
  by (simp add: sendToDiscord_def Let_def await_def later_def split: sum.splits option.splits)

subsection \<open>getRepoBranches and getBranchCommits\<close>

lemma getRepoBranches_fst:
  "fst (getRepoBranches P w owner rn) =
     (case repo_branches P owner rn of Inl e \<Rightarrow> [] | Inr bs \<Rightarrow> bs)"
  by (simp add: getRepoBranches_def Let_def split: sum.splits)

lemma getRepoBranches_calls:
  "notifier_calls (snd (getRepoBranches P w owner rn)) = notifier_calls w"
  by (simp add: getRepoBranches_def Let_def await_def split: sum.splits)

lemma getRepoBranches_later: "later w (snd (getRepoBranches P w owner rn))"
  by (simp add: getRepoBranches_def Let_def await_def later_def split: sum.splits)

lemma getBranchCommits_fst:
  "fst (getBranchCommits P w owner rn bn since) =
     (case branch_commits P owner rn bn (ISODateString since) of
        Inl e \<Rightarrow> []
      | Inr cs \<Rightarrow> (case build_message P rn bn cs of Inl e \<Rightarrow> [] | Inr msg \<Rightarrow> cs))"
proof (cases "branch_commits P owner rn bn (ISODateString since)")
  case (Inl e)
  then show ?thesis by (simp add: getBranchCommits_def Let_def)
next
  case (Inr cs)
  show ?thesis
  proof (cases "cs = []")
    case True
    with Inr show ?thesis by (simp add: getBranchCommits_def Let_def build_message_def)
  next
    case False
    obtain r w2 where s: "sendToDiscord P (await P w) rn bn cs = (r, w2)"
      by (cases "sendToDiscord P (await P w) rn bn cs") auto
    have "r = (case build_message P rn bn cs of Inl e \<Rightarrow> Inl e | Inr msg \<Rightarrow> Inr ())"
      using sendToDiscord_fst[of P "await P w" rn bn cs] s by simp
    with Inr False s show ?thesis
      by (simp add: getBranchCommits_def Let_def split: sum.splits)
  qed
qed

lemma getBranchCommits_calls:
  "notifier_calls (snd (getBranchCommits P w owner rn bn since)) =
     notifier_calls w @
       (case branch_commits P owner rn bn (ISODateString since) of
          Inl e \<Rightarrow> []
        | Inr cs \<Rightarrow> if cs = [] then [] else [(rn, bn, cs)])"
proof (cases "branch_commits P owner rn bn (ISODateString since)")
  case (Inl e)
  then show ?thesis by (simp add: getBranchCommits_def Let_def await_def)
next
  case (Inr cs)
  show ?thesis
  proof (cases "cs = []")
    case True
    with Inr show ?thesis by (simp add: getBranchCommits_def Let_def await_def)
  next
    case False
    obtain r w2 where s: "sendToDiscord P (await P w) rn bn cs = (r, w2)"
      by (cases "sendToDiscord P (await P w) rn bn cs") auto
    have "notifier_calls w2 = notifier_calls w @ [(rn, bn, cs)]"
      using sendToDiscord_calls[of P "await P w" rn bn cs] s by (simp add: await_def)
    with Inr False s show ?thesis
      by (simp add: getBranchCommits_def Let_def split: sum.splits)
  qed
qed

lemma getBranchCommits_later: "later w (snd (getBranchCommits P w owner rn bn since))"
proof (cases "branch_commits P owner rn bn (ISODateString since)")
  case (Inl e)
  then show ?thesis by (simp add: getBranchCommits_def Let_def await_def later_def)
next
  case (Inr cs)
  show ?thesis
  proof (cases "cs = []")
    case True
    with Inr show ?thesis by (simp add: getBranchCommits_def Let_def await_def later_def)
  next
    case False
    obtain r w2 where s: "sendToDiscord P (await P w) rn bn cs = (r, w2)"
      by (cases "sendToDiscord P (await P w) rn bn cs") auto
    have "later (await P w) w2" using sendToDiscord_later[of "await P w" P rn bn cs] s by simp
    then have "later w w2" by (rule later_trans[OF later_await])
    with Inr False s show ?thesis
      by (simp add: getBranchCommits_def Let_def later_def split: sum.splits)
  qed
qed

subsection \<open>The maps over branches and repositories\<close>

lemma getBranchCommits_fst_any:
  "fst (getBranchCommits P w owner rn bn since) = fst (getBranchCommits P v owner rn bn since)"
  by (simp only: getBranchCommits_fst)

lemma branchUpdates_fst:
  "fst (branchUpdates P w r since bs) =
     map (\<lambda>b. \<lparr>branch = branch_name b,
               commits = fst (getBranchCommits P v (owner_login r) (name r) (branch_name b) since)\<rparr>) bs"
proof (induction bs arbitrary: w)
  case Nil
  then show ?case by simp
next
  case (Cons b bs)
  obtain cs w1 where g: "getBranchCommits P w (owner_login r) (name r) (branch_name b) since = (cs, w1)"
    by (cases "getBranchCommits P w (owner_login r) (name r) (branch_name b) since") auto
  obtain us w2 where u: "branchUpdates P w1 r since bs = (us, w2)"
    by (cases "branchUpdates P w1 r since bs") auto
  have "cs = fst (getBranchCommits P v (owner_login r) (name r) (branch_name b) since)"
    using g getBranchCommits_fst_any[of P w "owner_login r" "name r" "branch_name b" since v] by simp
  moreover have "us = map (\<lambda>b. \<lparr>branch = branch_name b,
               commits = fst (getBranchCommits P v (owner_login r) (name r) (branch_name b) since)\<rparr>) bs"
    using Cons.IH[of w1] u by simp
  ultimately show ?case using g u by simp
qed

lemma branchUpdates_calls:
  "notifier_calls (snd (branchUpdates P w r since bs)) =
     notifier_calls w @
       concat (map (\<lambda>b. case fetched P r since b of
                           Inl e \<Rightarrow> []
                         | Inr cs \<Rightarrow> if cs = [] then [] else [(name r, branch_name b, cs)]) bs)"
proof (induction bs arbitrary: w)
  case Nil
  then show ?case by simp
next
  case (Cons b bs)
  obtain cs w1 where g: "getBranchCommits P w (owner_login r) (name r) (branch_name b) since = (cs, w1)"
    by (cases "getBranchCommits P w (owner_login r) (name r) (branch_name b) since") auto
  obtain us w2 where u: "branchUpdates P w1 r since bs = (us, w2)"
    by (cases "branchUpdates P w1 r since bs") auto
  have c1: "notifier_calls w1 = notifier_calls w @
       (case fetched P r since b of
          Inl e \<Rightarrow> []
        | Inr cs \<Rightarrow> if cs = [] then [] else [(name r, branch_name b, cs)])"
    using getBranchCommits_calls[of P w "owner_login r" "name r" "branch_name b" since] g
    by (simp add: fetched_def)
  have c2: "notifier_calls w2 = notifier_calls w1 @
       concat (map (\<lambda>b. case fetched P r since b of
                           Inl e \<Rightarrow> []
                         | Inr cs \<Rightarrow> if cs = [] then [] else [(name r, branch_name b, cs)]) bs)"
    using Cons.IH[of w1] u by simp
  show ?case using g u by (simp add: c1 c2)
qed

lemma branchUpdates_later: "later w (snd (branchUpdates P w r since bs))"
proof (induction bs arbitrary: w)
  case Nil
  then show ?case by (simp add: later_refl)
next
  case (Cons b bs)
  obtain cs w1 where g: "getBranchCommits P w (owner_login r) (name r) (branch_name b) since = (cs, w1)"
    by (cases "getBranchCommits P w (owner_login r) (name r) (branch_name b) since") auto
  obtain us w2 where u: "branchUpdates P w1 r since bs = (us, w2)"
    by (cases "branchUpdates P w1 r since bs") auto
  have "later w w1"
    using getBranchCommits_later[of w P "owner_login r" "name r" "branch_name b" since] g by simp
  moreover have "later w1 w2" using Cons.IH[of w1] u by simp
  ultimately have "later w w2" by (rule later_trans)
  then show ?case using g u by simp
qed

lemma repoUpdate_fst:
  "fst (repoUpdate P w since r) =
     (case repo_branches P (owner_login r) (name r) of
        Inl e \<Rightarrow> None
      | Inr bs \<Rightarrow>
          if bs = [] then None
          else Some \<lparr>repo = name r, branchCommits = fst (branchUpdates P v r since bs)\<rparr>)"
proof -
  obtain bs w1 where g: "getRepoBranches P w (owner_login r) (name r) = (bs, w1)"
    by (cases "getRepoBranches P w (owner_login r) (name r)") auto
  have b: "bs = (case repo_branches P (owner_login r) (name r) of Inl e \<Rightarrow> [] | Inr bs \<Rightarrow> bs)"
    using getRepoBranches_fst[of P w "owner_login r" "name r"] g by simp
  obtain us w2 where u: "branchUpdates P w1 r since bs = (us, w2)"
    by (cases "branchUpdates P w1 r since bs") auto
  have "us = fst (branchUpdates P v r since bs)"
    using u branchUpdates_fst[of P w1 r since bs v] branchUpdates_fst[of P v r since bs v] by simp
  then show ?thesis using g u b by (simp add: repoUpdate_def split: sum.splits)
qed

lemma repoUpdate_later: "later w (snd (repoUpdate P w since r))"
proof -
  obtain bs w1 where g: "getRepoBranches P w (owner_login r) (name r) = (bs, w1)"
    by (cases "getRepoBranches P w (owner_login r) (name r)") auto
  obtain us w2 where u: "branchUpdates P w1 r since bs = (us, w2)"
    by (cases "branchUpdates P w1 r since bs") auto
  have "later w w1" using getRepoBranches_later[of w P "owner_login r" "name r"] g by simp
  moreover have "later w1 w2" using branchUpdates_later[of w1 P r since bs] u by simp
  ultimately have "later w w2" by (rule later_trans)
  with \<open>later w w1\<close> show ?thesis using g u by (simp add: repoUpdate_def)
qed

lemma reposUpdates_fst:
  "fst (reposUpdates P w since rs) = map (\<lambda>r. fst (repoUpdate P v since r)) rs"
proof (induction rs arbitrary: w)
  case Nil
  then show ?case by simp
next
  case (Cons r rs)
  obtain u w1 where g: "repoUpdate P w since r = (u, w1)"
    by (cases "repoUpdate P w since r") auto
  obtain us w2 where h: "reposUpdates P w1 since rs = (us, w2)"
    by (cases "reposUpdates P w1 since rs") auto
  have "u = fst (repoUpdate P v since r)"
    using g repoUpdate_fst[of P w since r v] repoUpdate_fst[of P v since r v] by simp
  moreover have "us = map (\<lambda>r. fst (repoUpdate P v since r)) rs" using Cons.IH[of w1] h by simp
  ultimately show ?case using g h by simp
qed

lemma reposUpdates_later: "later w (snd (reposUpdates P w since rs))"
proof (induction rs arbitrary: w)
  case Nil
  then show ?case by (simp add: later_refl)
next
  case (Cons r rs)
  obtain u w1 where g: "repoUpdate P w since r = (u, w1)"
    by (cases "repoUpdate P w since r") auto
  obtain us w2 where h: "reposUpdates P w1 since rs = (us, w2)"
    by (cases "reposUpdates P w1 since rs") auto
  have "later w w1" using repoUpdate_later[of w P since r] g by simp
  moreover have "later w1 w2" using Cons.IH[of w1] h by simp
  ultimately have "later w w2" by (rule later_trans)
  then show ?case using g h by simp
qed

lemma repoUpdate_calls:
  assumes "repo_branches P (owner_login r) (name r) = Inr bs"
  shows "notifier_calls (snd (repoUpdate P w since r)) =
     notifier_calls w @
       concat (map (\<lambda>b. case fetched P r since b of
                           Inl e \<Rightarrow> []
                         | Inr cs \<Rightarrow> if cs = [] then [] else [(name r, branch_name b, cs)]) bs)"
proof -
  have g: "getRepoBranches P w (owner_login r) (name r) = (bs, await P w)"
    using assms by (simp add: getRepoBranches_def)
  obtain us w2 where u: "branchUpdates P (await P w) r since bs = (us, w2)"
    by (cases "branchUpdates P (await P w) r since bs") auto
  have "notifier_calls w2 = notifier_calls (await P w) @
       concat (map (\<lambda>b. case fetched P r since b of
                           Inl e \<Rightarrow> []
                         | Inr cs \<Rightarrow> if cs = [] then [] else [(name r, branch_name b, cs)]) bs)"
    using branchUpdates_calls[of P "await P w" r since bs] u by simp
  then show ?thesis using g u by (cases "bs = []") (simp_all add: repoUpdate_def await_def)
qed

lemma getOrgCommits_completes:
  assumes "getOrgRepos P w org since = Some (Inr rs, w1)"
  shows "\<exists>w'. getOrgCommits P w org since =
           Some (Inr (List.map_filter id (map (\<lambda>r. fst (repoUpdate P v since r)) rs)), w')"
proof -
  obtain us w2 where u: "reposUpdates P w1 since rs = (us, w2)"
    by (cases "reposUpdates P w1 since rs") auto
  have "us = map (\<lambda>r. fst (repoUpdate P v since r)) rs"
    using reposUpdates_fst[of P w1 since rs v] u by simp
  then show ?thesis using assms u by (simp add: getOrgCommits_def Let_def)
qed

lemma listing_at_10:
  "getOrgRepos (acme twelve_repos) start_world ''acme'' (Num 10000) =
     Some (Inr (take 3 twelve_repos), requested (acme twelve_repos) start_world [1, 2])"
proof -
  have k: "0 < per_page" by (simp add: per_page_def)
  have serve: "\<And>n. org_repos (acme twelve_repos) ''acme'' n = Inr (paged per_page twelve_repos n)"
    by (simp add: acme_def)
  have f: "filter (fresh 10000) twelve_repos = take 3 twelve_repos"
    by (simp add: twelve_repos_def acme_repo_def fresh_def)
  have n: "pages_needed per_page (length (take 3 twelve_repos)) = 2"
    by (simp add: pages_needed_def per_page_def twelve_repos_def)
  have u: "[1 ..< 1 + 2] = [1, 2::nat]" by (simp add: upt_rec)
  have "getOrgRepos_loop (acme twelve_repos) ''acme'' (Num 10000) [] 1 start_world =
       Some (Inr ([] @ filter (fresh 10000) (drop (per_page * (1 - 1)) twelve_repos)),
             requested (acme twelve_repos) start_world [1 ..< 1 + pages_needed per_page
               (length (filter (fresh 10000) (drop (per_page * (1 - 1)) twelve_repos)))])"
    by (rule loop_paged[OF k descending_twelve serve]) simp
  then show ?thesis
    by (simp only: getOrgRepos_def append_Nil diff_self_eq_0 mult_0_right drop_0 f n u)
qed

lemma sample_message:
  "\<exists>msg. build_message P rn bn [sample_commit] = Inr msg"
  by (simp add: build_message_def format_commit_def sample_commit_def)

lemma sample_updates:
  "List.map_filter id (map (\<lambda>r. fst (repoUpdate (acme twelve_repos) start_world (Num 10000) r))
      (take 3 twelve_repos)) =
     [\<lparr>repo = ''l'', branchCommits =
        [\<lparr>branch = ''main'', commits = [sample_commit]\<rparr>, \<lparr>branch = ''dev'', commits = []\<rparr>,
         \<lparr>branch = ''old'', commits = []\<rparr>]\<rparr>]"
proof -
  let ?P = "acme twelve_repos"
  let ?l = "acme_repo ''l'' 12000" and ?k = "acme_repo ''k'' 11000" and ?j = "acme_repo ''j'' 10000"
  let ?bs = "[\<lparr>branch_name = ''main''\<rparr>, \<lparr>branch_name = ''dev''\<rparr>, \<lparr>branch_name = ''old''\<rparr>]"
  have t: "take 3 twelve_repos = [?l, ?k, ?j]"
    by (simp add: twelve_repos_def)
  have nm: "name ?l = ''l''" "owner_login ?l = ''acme''" "name ?k = ''k''" "owner_login ?k = ''acme''"
    "name ?j = ''j''" "owner_login ?j = ''acme''"
    by (simp_all add: acme_repo_def)
  have b: "repo_branches ?P ''acme'' ''l'' = Inr ?bs"
    "repo_branches ?P ''acme'' ''k'' = Inl (RequestError ''timeout'')"
    "repo_branches ?P ''acme'' ''j'' = Inr []"
    by (simp_all add: acme_def)
  have c: "branch_commits ?P ''acme'' ''l'' ''main'' s = Inr [sample_commit]"
    "branch_commits ?P ''acme'' ''l'' ''dev'' s = Inr []"
    "branch_commits ?P ''acme'' ''l'' ''old'' s = Inl (RequestError ''not found'')"
    for s by (simp_all add: acme_def)
  have g: "fst (getBranchCommits ?P start_world ''acme'' ''l'' ''main'' (Num 10000)) = [sample_commit]"
    "fst (getBranchCommits ?P start_world ''acme'' ''l'' ''dev'' (Num 10000)) = []"
    "fst (getBranchCommits ?P start_world ''acme'' ''l'' ''old'' (Num 10000)) = []"
    by (simp_all add: getBranchCommits_fst c build_message_def format_commit_def sample_commit_def)
  have bu: "fst (branchUpdates ?P start_world ?l (Num 10000) ?bs) =
      [\<lparr>branch = ''main'', commits = [sample_commit]\<rparr>, \<lparr>branch = ''dev'', commits = []\<rparr>,
       \<lparr>branch = ''old'', commits = []\<rparr>]"
    by (subst branchUpdates_fst[of _ _ _ _ _ start_world]) (simp add: nm g)
  have ru: "fst (repoUpdate ?P start_world (Num 10000) ?l) =
      Some \<lparr>repo = ''l'', branchCommits =
        [\<lparr>branch = ''main'', commits = [sample_commit]\<rparr>, \<lparr>branch = ''dev'', commits = []\<rparr>,
         \<lparr>branch = ''old'', commits = []\<rparr>]\<rparr>"
    "fst (repoUpdate ?P start_world (Num 10000) ?k) = None"
    "fst (repoUpdate ?P start_world (Num 10000) ?j) = None"
    by (simp_all add: repoUpdate_fst[of _ _ _ _ start_world] nm b bu del: branchUpdates.simps)
  show ?thesis by (simp add: t ru List.map_filter_simps)
qed

lemma l_branches:
  "repo_branches (acme twelve_repos) (owner_login (acme_repo ''l'' 12000)) (name (acme_repo ''l'' 12000)) =
     Inr [\<lparr>branch_name = ''main''\<rparr>, \<lparr>branch_name = ''dev''\<rparr>, \<lparr>branch_name = ''old''\<rparr>]"
  by (simp add: acme_def acme_repo_def)

subsection \<open>The bodies posted\<close>

lemma getBranchCommits_posts:
  "posts (snd (getBranchCommits P w owner rn bn since)) =
     posts w @
       (case branch_commits P owner rn bn (ISODateString since) of
          Inl e \<Rightarrow> []
        | Inr cs \<Rightarrow>
            if cs = [] then []
            else (case build_message P rn bn cs of Inl e \<Rightarrow> [] | Inr msg \<Rightarrow> [msg]))"
proof (cases "branch_commits P owner rn bn (ISODateString since)")
  case (Inl e)
  then show ?thesis by (simp add: getBranchCommits_def Let_def await_def)
next
  case (Inr cs)
  show ?thesis
  proof (cases "cs = []")
    case True
    with Inr show ?thesis by (simp add: getBranchCommits_def Let_def await_def)
  next
    case False
    obtain r w2 where s: "sendToDiscord P (await P w) rn bn cs = (r, w2)"
      by (cases "sendToDiscord P (await P w) rn bn cs") auto
    have "posts w2 = (case build_message P rn bn cs of
                        Inl e \<Rightarrow> posts w | Inr msg \<Rightarrow> posts w @ [msg])"
      using sendToDiscord_posts[of P "await P w" rn bn cs] s
      by (simp add: await_def split: sum.splits)
    with Inr False s show ?thesis
      by (simp add: getBranchCommits_def Let_def split: sum.splits)
  qed
qed

lemma branchUpdates_posts:
  "posts (snd (branchUpdates P w r since bs)) =
     posts w @
       concat (map (\<lambda>b. case fetched P r since b of
                           Inl e \<Rightarrow> []
                         | Inr cs \<Rightarrow>
                             if cs = [] then []
                             else (case build_message P (name r) (branch_name b) cs of
                                     Inl e \<Rightarrow> [] | Inr msg \<Rightarrow> [msg])) bs)"
proof (induction bs arbitrary: w)
  case Nil
  then show ?case by simp
next
  case (Cons b bs)
  obtain cs w1 where g: "getBranchCommits P w (owner_login r) (name r) (branch_name b) since = (cs, w1)"
    by (cases "getBranchCommits P w (owner_login r) (name r) (branch_name b) since") auto
  obtain us w2 where u: "branchUpdates P w1 r since bs = (us, w2)"
    by (cases "branchUpdates P w1 r since bs") auto
  have c1: "posts w1 = posts w @
       (case fetched P r since b of
          Inl e \<Rightarrow> []
        | Inr cs \<Rightarrow>
            if cs = [] then []
            else (case build_message P (name r) (branch_name b) cs of
                    Inl e \<Rightarrow> [] | Inr msg \<Rightarrow> [msg]))"
    using getBranchCommits_posts[of P w "owner_login r" "name r" "branch_name b" since] g
    by (simp add: fetched_def)
  have c2: "posts w2 = posts w1 @
       concat (map (\<lambda>b. case fetched P r since b of
                           Inl e \<Rightarrow> []
                         | Inr cs \<Rightarrow>
                             if cs = [] then []
                             else (case build_message P (name r) (branch_name b) cs of
                                     Inl e \<Rightarrow> [] | Inr msg \<Rightarrow> [msg])) bs)"
    using Cons.IH[of w1] u by simp
  show ?case using g u by (simp add: c1 c2)
qed

lemma repoUpdate_posts:
  assumes "repo_branches P (owner_login r) (name r) = Inr bs"
  shows "posts (snd (repoUpdate P w since r)) =
     posts w @
       concat (map (\<lambda>b. case fetched P r since b of
                           Inl e \<Rightarrow> []
                         | Inr cs \<Rightarrow>
                             if cs = [] then []
                             else (case build_message P (name r) (branch_name b) cs of
                                     Inl e \<Rightarrow> [] | Inr msg \<Rightarrow> [msg])) bs)"
proof -
  have g: "getRepoBranches P w (owner_login r) (name r) = (bs, await P w)"
    using assms by (simp add: getRepoBranches_def)
  obtain us w2 where u: "branchUpdates P (await P w) r since bs = (us, w2)"
    by (cases "branchUpdates P (await P w) r since bs") auto
  have "posts w2 = posts (await P w) @
       concat (map (\<lambda>b. case fetched P r since b of
                           Inl e \<Rightarrow> []
                         | Inr cs \<Rightarrow>
                             if cs = [] then []
                             else (case build_message P (name r) (branch_name b) cs of
                                     Inl e \<Rightarrow> [] | Inr msg \<Rightarrow> [msg])) bs)"
    using branchUpdates_posts[of P "await P w" r since bs] u by simp
  then show ?thesis using g u by (cases "bs = []") (simp_all add: repoUpdate_def await_def)
qed

subsection \<open>Failed requests\<close>

text \<open>
  C6: a failure of the branch request of a repository, or of the commit request of a
  branch, is caught where it occurs: the function returns the empty list and a line of
  \<^verbatim>\<open>console.error\<close>, not an error. It aborts nothing else: the entry of every
  branch and of every repository in the result is the one that unit yields on its own,
  from any state, so it does not depend on what happened to the other units; and
  whenever the listing returned, the cycle returns its result.
\<close>

theorem fetch_failure_is_empty_result:
  "(repo_branches P owner rn = Inl e \<longrightarrow>
      getRepoBranches P w owner rn =
        ([], (await P w)\<lparr>console_error := console_error w @
               [''Error fetching branches for '' @ owner @ ''/'' @ rn @ '': '' @ error_message e]\<rparr>))
   \<and> (branch_commits P owner rn bn (ISODateString since) = Inl e \<longrightarrow>
      getBranchCommits P w owner rn bn since =
        ([], (await P w)\<lparr>console_error := console_error w @
               [''Error fetching commits for branch '' @ bn @ '' of '' @ owner @ ''/'' @ rn @
                '': '' @ error_message e]\<rparr>))
   \<and> fst (branchUpdates P w r since bs) =
       map (\<lambda>b. \<lparr>branch = branch_name b,
                  commits = fst (getBranchCommits P v (owner_login r) (name r) (branch_name b) since)\<rparr>) bs
   \<and> fst (reposUpdates P w since rs) = map (\<lambda>r. fst (repoUpdate P v since r)) rs
   \<and> (getOrgRepos P w org since = Some (Inr rs, w1) \<longrightarrow>
        (\<exists>w'. getOrgCommits P w org since =
           Some (Inr (List.map_filter id (map (\<lambda>r. fst (repoUpdate P v since r)) rs)), w')))"
proof (intro conjI impI)
  assume "repo_branches P owner rn = Inl e"
  then show "getRepoBranches P w owner rn =
        ([], (await P w)\<lparr>console_error := console_error w @
               [''Error fetching branches for '' @ owner @ ''/'' @ rn @ '': '' @ error_message e]\<rparr>)"
    by (simp add: getRepoBranches_def await_def)
next
  assume "branch_commits P owner rn bn (ISODateString since) = Inl e"
  then show "getBranchCommits P w owner rn bn since =
        ([], (await P w)\<lparr>console_error := console_error w @
               [''Error fetching commits for branch '' @ bn @ '' of '' @ owner @ ''/'' @ rn @
                '': '' @ error_message e]\<rparr>)"
    by (simp add: getBranchCommits_def await_def)
next
  show "fst (branchUpdates P w r since bs) =
       map (\<lambda>b. \<lparr>branch = branch_name b,
                  commits = fst (getBranchCommits P v (owner_login r) (name r) (branch_name b) since)\<rparr>) bs"
    by (rule branchUpdates_fst)
next
  show "fst (reposUpdates P w since rs) = map (\<lambda>r. fst (repoUpdate P v since r)) rs"
    by (rule reposUpdates_fst)
next
  assume "getOrgRepos P w org since = Some (Inr rs, w1)"
  then show "\<exists>w'. getOrgCommits P w org since =
           Some (Inr (List.map_filter id (map (\<lambda>r. fst (repoUpdate P v since r)) rs)), w')"
    by (rule getOrgCommits_completes)
qed

theorem fetch_failure_is_empty_result_witness:
  "fst (getRepoBranches (acme twelve_repos) start_world ''acme'' ''k'') = []
   \<and> fst (getBranchCommits (acme twelve_repos) start_world ''acme'' ''l'' ''old'' (Num 10000)) = []
   \<and> map_option fst (getOrgCommits (acme twelve_repos) start_world ''acme'' (Num 10000)) =
       Some (Inr [\<lparr>repo = ''l'', branchCommits =
         [\<lparr>branch = ''main'', commits = [sample_commit]\<rparr>, \<lparr>branch = ''dev'', commits = []\<rparr>,
          \<lparr>branch = ''old'', commits = []\<rparr>]\<rparr>])"
proof -
  let ?P = "acme twelve_repos"
  have b: "repo_branches ?P ''acme'' ''k'' = Inl (RequestError ''timeout'')"
    by (simp add: acme_def)
  have c: "branch_commits ?P ''acme'' ''l'' ''old'' (ISODateString (Num 10000)) =
      Inl (RequestError ''not found'')"
    by (simp add: acme_def)
  note thm1 = fetch_failure_is_empty_result[where P = ?P and owner = "''acme''" and rn = "''k''"
      and e = "RequestError ''timeout''" and w = start_world and since = "Num 10000"
      and v = start_world and org = "''acme''" and rs = "take 3 twelve_repos"
      and ?w1.0 = "requested ?P start_world [1, 2]"]
  note thm2 = fetch_failure_is_empty_result[where P = ?P and owner = "''acme''" and rn = "''l''"
      and e = "RequestError ''not found''" and w = start_world and since = "Num 10000"
      and bn = "''old''"]
  from thm1 b have x: "fst (getRepoBranches ?P start_world ''acme'' ''k'') = []" by simp
  from thm2 c have y: "fst (getBranchCommits ?P start_world ''acme'' ''l'' ''old'' (Num 10000)) = []"
    by simp
  from thm1 listing_at_10 obtain w' where "getOrgCommits ?P start_world ''acme'' (Num 10000) =
     Some (Inr (List.map_filter id (map (\<lambda>r. fst (repoUpdate ?P start_world (Num 10000) r))
       (take 3 twelve_repos))), w')"
    by blast
  then have z: "map_option fst (getOrgCommits ?P start_world ''acme'' (Num 10000)) =
       Some (Inr [\<lparr>repo = ''l'', branchCommits =
         [\<lparr>branch = ''main'', commits = [sample_commit]\<rparr>, \<lparr>branch = ''dev'', commits = []\<rparr>,
          \<lparr>branch = ''old'', commits = []\<rparr>]\<rparr>])"
    by (simp add: sample_updates)
  from x y z show ?thesis by blast
qed

subsection \<open>Branches without commits\<close>

text \<open>
  What the processing of a repository that has branches records and sends: every branch
  appears in the entry, in the order of the listing; a branch whose commit request
  returns no commits appears with the empty commit list, and for such a branch
  \<^verbatim>\<open>getBranchCommits\<close> only awaits the request, so it neither calls the notifier nor
  posts. \<^verbatim>\<open>sendToDiscord\<close> is entered exactly for the branches whose fetched commit
  list is not empty; a body is posted only for those of them whose message could be
  built.
\<close>

lemma nonempty_batches_enter_notifier:
  assumes "repo_branches P (owner_login r) (name r) = Inr bs" and "bs \<noteq> []"
  shows "(\<exists>us w'. repoUpdate P w since r = (Some \<lparr>repo = name r, branchCommits = us\<rparr>, w')
           \<and> map branch us = map branch_name bs
           \<and> (\<forall>i<length bs. fetched P r since (bs ! i) = Inr [] \<longrightarrow> commits (us ! i) = [])
           \<and> notifier_calls w' = notifier_calls w @
                concat (map (\<lambda>b. case fetched P r since b of
                                    Inl e \<Rightarrow> []
                                  | Inr cs \<Rightarrow> if cs = [] then [] else [(name r, branch_name b, cs)]) bs)
           \<and> posts w' = posts w @
                concat (map (\<lambda>b. case fetched P r since b of
                                    Inl e \<Rightarrow> []
                                  | Inr cs \<Rightarrow>
                                      if cs = [] then []
                                      else (case build_message P (name r) (branch_name b) cs of
                                              Inl e \<Rightarrow> [] | Inr msg \<Rightarrow> [msg])) bs))
       \<and> (\<forall>b v. fetched P r since b = Inr [] \<longrightarrow>
             getBranchCommits P v (owner_login r) (name r) (branch_name b) since = ([], await P v))"
proof -
  have g: "getRepoBranches P w (owner_login r) (name r) = (bs, await P w)"
    using assms(1) by (simp add: getRepoBranches_def)
  obtain us w2 where u: "branchUpdates P (await P w) r since bs = (us, w2)"
    by (cases "branchUpdates P (await P w) r since bs") auto
  have run: "repoUpdate P w since r = (Some \<lparr>repo = name r, branchCommits = us\<rparr>, w2)"
    using g u assms(2) by (simp add: repoUpdate_def)
  have us: "us = map (\<lambda>b. \<lparr>branch = branch_name b,
               commits = fst (getBranchCommits P w (owner_login r) (name r) (branch_name b) since)\<rparr>) bs"
    using branchUpdates_fst[of P "await P w" r since bs w] u by simp
  have names: "map branch us = map branch_name bs" by (simp add: us comp_def)
  have empty: "commits (us ! i) = []" if "i < length bs" "fetched P r since (bs ! i) = Inr []" for i
    using that by (simp add: us getBranchCommits_fst fetched_def build_message_def)
  have calls: "notifier_calls w2 = notifier_calls w @
                concat (map (\<lambda>b. case fetched P r since b of
                                    Inl e \<Rightarrow> []
                                  | Inr cs \<Rightarrow> if cs = [] then [] else [(name r, branch_name b, cs)]) bs)"
    using repoUpdate_calls[OF assms(1), of w since] run by simp
  have sent: "posts w2 = posts w @
                concat (map (\<lambda>b. case fetched P r since b of
                                    Inl e \<Rightarrow> []
                                  | Inr cs \<Rightarrow>
                                      if cs = [] then []
                                      else (case build_message P (name r) (branch_name b) cs of
                                              Inl e \<Rightarrow> [] | Inr msg \<Rightarrow> [msg])) bs)"
    using repoUpdate_posts[OF assms(1), of w since] run by simp
  have one: "getBranchCommits P v (owner_login r) (name r) (branch_name b) since = ([], await P v)"
    if "fetched P r since b = Inr []" for b v
    using that by (simp add: getBranchCommits_def fetched_def)
  from run names empty calls sent one show ?thesis by blast
qed

lemma nonempty_batches_enter_notifier_example:
  "map branch (branchCommits (the (fst (repoUpdate (acme twelve_repos) start_world (Num 10000)
      (acme_repo ''l'' 12000))))) = [''main'', ''dev'', ''old'']
   \<and> commits (branchCommits (the (fst (repoUpdate (acme twelve_repos) start_world (Num 10000)
      (acme_repo ''l'' 12000)))) ! 1) = []
   \<and> notifier_calls (snd (repoUpdate (acme twelve_repos) start_world (Num 10000)
      (acme_repo ''l'' 12000))) = [(''l'', ''main'', [sample_commit])]
   \<and> length (posts (snd (repoUpdate (acme twelve_repos) start_world (Num 10000)
      (acme_repo ''l'' 12000)))) = 1
   \<and> getBranchCommits (acme twelve_repos) start_world ''acme'' ''l'' ''dev'' (Num 10000) =
       ([], await (acme twelve_repos) start_world)"
proof -
  let ?P = "acme twelve_repos" and ?r = "acme_repo ''l'' 12000"
  let ?bs = "[\<lparr>branch_name = ''main''\<rparr>, \<lparr>branch_name = ''dev''\<rparr>, \<lparr>branch_name = ''old''\<rparr>]"
  have ne: "?bs \<noteq> []" by simp
  have f: "fetched ?P ?r (Num 10000) \<lparr>branch_name = ''main''\<rparr> = Inr [sample_commit]"
    "fetched ?P ?r (Num 10000) \<lparr>branch_name = ''dev''\<rparr> = Inr []"
    "fetched ?P ?r (Num 10000) \<lparr>branch_name = ''old''\<rparr> = Inl (RequestError ''not found'')"
    by (simp_all add: fetched_def acme_def)
  obtain msg where m: "build_message ?P ''l'' ''main'' [sample_commit] = Inr msg"
    using sample_message by blast
  from nonempty_batches_enter_notifier[OF l_branches ne, of start_world "Num 10000"]
  obtain us w' where run: "repoUpdate ?P start_world (Num 10000) ?r =
        (Some \<lparr>repo = name ?r, branchCommits = us\<rparr>, w')"
    and names: "map branch us = map branch_name ?bs"
    and empty: "\<forall>i<length ?bs. fetched ?P ?r (Num 10000) (?bs ! i) = Inr [] \<longrightarrow> commits (us ! i) = []"
    and calls: "notifier_calls w' = notifier_calls start_world @
                concat (map (\<lambda>b. case fetched ?P ?r (Num 10000) b of
                                    Inl e \<Rightarrow> []
                                  | Inr cs \<Rightarrow> if cs = [] then [] else [(name ?r, branch_name b, cs)]) ?bs)"
    and sent: "posts w' = posts start_world @
                concat (map (\<lambda>b. case fetched ?P ?r (Num 10000) b of
                                    Inl e \<Rightarrow> []
                                  | Inr cs \<Rightarrow>
                                      if cs = [] then []
                                      else (case build_message ?P (name ?r) (branch_name b) cs of
                                              Inl e \<Rightarrow> [] | Inr msg \<Rightarrow> [msg])) ?bs)"
    and one: "\<forall>b v. fetched ?P ?r (Num 10000) b = Inr [] \<longrightarrow>
             getBranchCommits ?P v (owner_login ?r) (name ?r) (branch_name b) (Num 10000) = ([], await ?P v)"
    by blast
  have nm: "name ?r = ''l''" "owner_login ?r = ''acme''" by (simp_all add: acme_repo_def)
  have a: "map branch us = [''main'', ''dev'', ''old'']" using names by simp
  have b: "commits (us ! 1) = []" using empty[rule_format, of 1] f(2) by simp
  have c: "notifier_calls w' = [(''l'', ''main'', [sample_commit])]"
    using calls by (simp add: f start_world_def nm)
  have p: "length (posts w') = 1"
    using sent by (simp add: f start_world_def nm m)
  have d: "getBranchCommits ?P start_world ''acme'' ''l'' ''dev'' (Num 10000) = ([], await ?P start_world)"
    using one[rule_format, of "\<lparr>branch_name = ''dev''\<rparr>" start_world] f(2)
    by (simp add: nm)
  show ?thesis using a b c p d by (simp add: run)
qed

text \<open>
  C7 does not hold in the code for a commit without an account. The platform sends such
  a commit with \<^verbatim>\<open>author: null\<close>; \<^verbatim>\<open>commit.author.login\<close> on line 24 then throws
  while the message is built, before the post. For the branch \<open>main\<close> of the sample
  repository, whose commit request returns one such commit, the fetched list is not
  empty, and yet nothing is posted: \<^verbatim>\<open>getBranchCommits\<close> catches the error, logs it as
  a failed fetch and returns the empty list, so the branch is recorded without commits.
\<close>

theorem null_author_batch_is_dropped:
  "fetched ghosted (acme_repo ''l'' 12000) (Num 10000) \<lparr>branch_name = ''main''\<rparr> = Inr [ghost_commit]
   \<and> getBranchCommits ghosted start_world ''acme'' ''l'' ''main'' (Num 10000) =
       ([], (await ghosted start_world)
              \<lparr>notifier_calls := [(''l'', ''main'', [ghost_commit])],
               console_error := [''Error fetching commits for branch main of acme/l: '' @
                                 ''Cannot read properties of null (reading login)'']\<rparr>)
   \<and> posts (snd (getBranchCommits ghosted start_world ''acme'' ''l'' ''main'' (Num 10000))) = []
   \<and> fst (repoUpdate ghosted start_world (Num 10000) (acme_repo ''l'' 12000)) =
       Some \<lparr>repo = ''l'', branchCommits =
         [\<lparr>branch = ''main'', commits = []\<rparr>, \<lparr>branch = ''dev'', commits = []\<rparr>,
          \<lparr>branch = ''old'', commits = []\<rparr>]\<rparr>
   \<and> posts (snd (repoUpdate ghosted start_world (Num 10000) (acme_repo ''l'' 12000))) = []"
proof -
  let ?l = "acme_repo ''l'' 12000"
  let ?bs = "[\<lparr>branch_name = ''main''\<rparr>, \<lparr>branch_name = ''dev''\<rparr>, \<lparr>branch_name = ''old''\<rparr>]"
  have nm: "name ?l = ''l''" "owner_login ?l = ''acme''" by (simp_all add: acme_repo_def)
  have c: "branch_commits ghosted ''acme'' ''l'' ''main'' s = Inr [ghost_commit]"
    "branch_commits ghosted ''acme'' ''l'' ''dev'' s = Inr []"
    "branch_commits ghosted ''acme'' ''l'' ''old'' s = Inr []"
    for s by (simp_all add: ghosted_def)
  have b: "repo_branches ghosted ''acme'' ''l'' = Inr ?bs"
    by (simp add: ghosted_def acme_def)
  have m: "build_message ghosted ''l'' ''main'' [ghost_commit] =
      Inl (TypeError ''Cannot read properties of null (reading login)'')"
    by (simp add: build_message_def format_commit_def ghost_commit_def)
  have f: "fetched ghosted ?l (Num 10000) \<lparr>branch_name = ''main''\<rparr> = Inr [ghost_commit]"
    "fetched ghosted ?l (Num 10000) \<lparr>branch_name = ''dev''\<rparr> = Inr []"
    "fetched ghosted ?l (Num 10000) \<lparr>branch_name = ''old''\<rparr> = Inr []"
    by (simp_all add: fetched_def nm c)
  have g: "getBranchCommits ghosted start_world ''acme'' ''l'' ''main'' (Num 10000) =
       ([], (await ghosted start_world)
              \<lparr>notifier_calls := [(''l'', ''main'', [ghost_commit])],
               console_error := [''Error fetching commits for branch main of acme/l: '' @
                                 ''Cannot read properties of null (reading login)'']\<rparr>)"
    by (simp add: getBranchCommits_def sendToDiscord_def m c Let_def await_def start_world_def
        error_message_def)
  have p: "posts (snd (getBranchCommits ghosted start_world ''acme'' ''l'' ''main'' (Num 10000))) = []"
    by (simp only: g snd_conv) (simp add: await_def start_world_def)
  have gf: "fst (getBranchCommits ghosted start_world ''acme'' ''l'' ''main'' (Num 10000)) = []"
    "fst (getBranchCommits ghosted start_world ''acme'' ''l'' ''dev'' (Num 10000)) = []"
    "fst (getBranchCommits ghosted start_world ''acme'' ''l'' ''old'' (Num 10000)) = []"
    by (simp_all add: getBranchCommits_fst c m)
  have bu: "fst (branchUpdates ghosted start_world ?l (Num 10000) ?bs) =
      [\<lparr>branch = ''main'', commits = []\<rparr>, \<lparr>branch = ''dev'', commits = []\<rparr>,
       \<lparr>branch = ''old'', commits = []\<rparr>]"
    by (subst branchUpdates_fst[of _ _ _ _ _ start_world]) (simp add: nm gf)
  have ru: "fst (repoUpdate ghosted start_world (Num 10000) ?l) =
       Some \<lparr>repo = ''l'', branchCommits =
         [\<lparr>branch = ''main'', commits = []\<rparr>, \<lparr>branch = ''dev'', commits = []\<rparr>,
          \<lparr>branch = ''old'', commits = []\<rparr>]\<rparr>"
    by (simp add: repoUpdate_fst[of _ _ _ _ start_world] nm b bu del: branchUpdates.simps)
  have b': "repo_branches ghosted (owner_login ?l) (name ?l) = Inr ?bs" by (simp add: nm b)
  have rp: "posts (snd (repoUpdate ghosted start_world (Num 10000) ?l)) = []"
    by (simp add: repoUpdate_posts[OF b'] f nm m start_world_def)
  show ?thesis by (intro conjI f(1) g p ru rp)
qed

subsection \<open>A failed delivery\<close>

text \<open>
  C8: when the post of a message fails, \<^verbatim>\<open>sendToDiscord\<close> returns normally: the
  error is logged, the body was handed to the webhook once, and nothing is sent again.
  For a commit batch that is not empty, \<^verbatim>\<open>getBranchCommits\<close> then returns the
  fetched commits unchanged, after that one post. Whatever the platform does, a call of
  \<^verbatim>\<open>sendToDiscord\<close> adds at most one post.
\<close>

theorem delivery_failure_swallowed:
  assumes "build_message P rn bn cs = Inr msg" and "webhook P msg = Some e"
  shows "sendToDiscord P w rn bn cs =
           (Inr (), (await P w)\<lparr>notifier_calls := notifier_calls w @ [(rn, bn, cs)],
                                posts := posts w @ [msg],
                                console_error := console_error w @
                                  [''Error sending message to Discord: '' @ error_message e]\<rparr>)
       \<and> (cs \<noteq> [] \<and> branch_commits P owner rn bn (ISODateString since) = Inr cs \<longrightarrow>
            fst (getBranchCommits P w owner rn bn since) = cs
            \<and> posts (snd (getBranchCommits P w owner rn bn since)) = posts w @ [msg])
       \<and> (\<forall>P' w'. length (posts (snd (sendToDiscord P' w' rn bn cs))) \<le> length (posts w') + 1)"
proof (intro conjI impI allI)
  show s: "sendToDiscord P w rn bn cs =
           (Inr (), (await P w)\<lparr>notifier_calls := notifier_calls w @ [(rn, bn, cs)],
                                posts := posts w @ [msg],
                                console_error := console_error w @
                                  [''Error sending message to Discord: '' @ error_message e]\<rparr>)" for w
    using assms by (simp add: sendToDiscord_def Let_def await_def)
  show "length (posts (snd (sendToDiscord P' w' rn bn cs))) \<le> length (posts w') + 1" for P' w'
    by (simp add: sendToDiscord_posts split: sum.splits)
  assume a: "cs \<noteq> [] \<and> branch_commits P owner rn bn (ISODateString since) = Inr cs"
  then show "fst (getBranchCommits P w owner rn bn since) = cs"
    using assms(1) by (simp add: getBranchCommits_fst)
  show "posts (snd (getBranchCommits P w owner rn bn since)) = posts w @ [msg]"
    using a s[of "await P w"] by (simp add: getBranchCommits_def Let_def await_def)
qed

theorem delivery_failure_swallowed_witness:
  "fst (sendToDiscord (acme twelve_repos) start_world ''l'' ''main'' [sample_commit]) = Inr ()
   \<and> length (posts (snd (sendToDiscord (acme twelve_repos) start_world ''l'' ''main'' [sample_commit]))) = 1
   \<and> fst (getBranchCommits (acme twelve_repos) start_world ''acme'' ''l'' ''main'' (Num 10000)) =
       [sample_commit]
   \<and> length (posts (snd (getBranchCommits (acme twelve_repos) start_world ''acme'' ''l'' ''main''
        (Num 10000)))) = 1"
proof -
  let ?P = "acme twelve_repos"
  obtain msg where m: "build_message ?P ''l'' ''main'' [sample_commit] = Inr msg"
    using sample_message by blast
  have f: "webhook ?P msg = Some (RequestError ''503'')" by (simp add: acme_def)
  have c: "branch_commits ?P ''acme'' ''l'' ''main'' (ISODateString (Num 10000)) = Inr [sample_commit]"
    by (simp add: acme_def)
  have p: "posts start_world = []" by (simp add: start_world_def)
  from delivery_failure_swallowed[OF m f, of start_world "''acme''" "Num 10000"] c
  show ?thesis by (simp add: p)
qed

section \<open>Properties of the watermark store\<close>

text \<open>
  C10: when \<^verbatim>\<open>data.json\<close> holds a JSON object, \<^verbatim>\<open>writeLastCheck\<close> writes that
  object back with the key \<^verbatim>\<open>last_checked\<close> set to the text of the given date; every
  other key has the value it had, and nothing else of the state changes.
\<close>

theorem writeLastCheck_keeps_other_keys:
  assumes "data_json w = Some data"
  shows "\<exists>data'. writeLastCheck w d = Inr (w\<lparr>data_json := Some data'\<rparr>)
           \<and> data' ''last_checked'' = Some (JDate (ISODateString d))
           \<and> (\<forall>k. k \<noteq> ''last_checked'' \<longrightarrow> data' k = data k)"
proof (intro exI conjI allI impI)
  show "writeLastCheck w d =
      Inr (w\<lparr>data_json := Some (data(''last_checked'' \<mapsto> JDate (ISODateString d)))\<rparr>)"
    using assms by (simp add: writeLastCheck_def)
  show "(data(''last_checked'' \<mapsto> JDate (ISODateString d))) ''last_checked'' =
      Some (JDate (ISODateString d))"
    by simp
  show "(data(''last_checked'' \<mapsto> JDate (ISODateString d))) k = data k"
    if "k \<noteq> ''last_checked''" for k
    using that by simp
qed

theorem writeLastCheck_keeps_other_keys_witness:
  "(case writeLastCheck start_world (Num 22650) of
      Inl e \<Rightarrow> False
    | Inr w' \<Rightarrow>
        (case data_json w' of
           None \<Rightarrow> False
         | Some m \<Rightarrow> m ''last_checked'' = Some (JDate (ISO 22)) \<and> m ''note'' = Some (JOther ''keep'')
                      \<and> m ''other'' = None))"
proof -
  have d: "data_json start_world =
      Some [''last_checked'' \<mapsto> JDate (ISO 10), ''note'' \<mapsto> JOther ''keep'']"
    by (simp add: start_world_def)
  from writeLastCheck_keeps_other_keys[OF d, of "Num 22650"]
  obtain data' where "writeLastCheck start_world (Num 22650) = Inr (start_world\<lparr>data_json := Some data'\<rparr>)"
    and "data' ''last_checked'' = Some (JDate (ISODateString (Num 22650)))"
    and "\<forall>k. k \<noteq> ''last_checked'' \<longrightarrow>
           data' k = [''last_checked'' \<mapsto> JDate (ISO 10), ''note'' \<mapsto> JOther ''keep''] k"
    by blast
  then show ?thesis by (simp add: ISODateString_def)
qed

section \<open>Properties of one cycle\<close>

lemma getOrgRepos_later:
  assumes "getOrgRepos P w org since = Some (res, w1)"
  shows "later w w1 \<and> now w + int (latency P) \<le> now w1"
proof -
  from assms obtain ns where "w1 = requested P w (1 # ns)"
    unfolding getOrgRepos_def using loop_requested by blast
  then show ?thesis by (simp add: later_def requested_def algebra_simps)
qed

lemma getOrgCommits_world:
  assumes "getOrgCommits P w org since = Some (Inr result, w')"
  shows "\<exists>w3. later w w3 \<and> now w + int (latency P) \<le> now w3
           \<and> w' = (case writeLastCheck w3 (Num (now w3)) of
                     Inl e \<Rightarrow> w3\<lparr>unhandled := unhandled w3 @ [e]\<rparr>
                   | Inr w4 \<Rightarrow> w4)"
proof -
  from assms obtain repos w1 where g: "getOrgRepos P w org since = Some (Inr repos, w1)"
    by (auto simp: getOrgCommits_def split: option.splits sum.splits prod.splits)
  obtain us w2 where u: "reposUpdates P w1 since repos = (us, w2)"
    by (cases "reposUpdates P w1 since repos") auto
  from getOrgRepos_later[OF g] have l1: "later w w1" and t1: "now w + int (latency P) \<le> now w1"
    by simp_all
  have l2: "later w1 w2" using reposUpdates_later[of w1 P since repos] u by simp
  have key: "later w w3 \<and> now w + int (latency P) \<le> now w3" if "later w2 w3" for w3
    using that t1 l2 later_trans[OF l1 later_trans[OF l2 that]] by (simp add: later_def)
  show ?thesis
  proof (cases "repos = []")
    case True
    have "w' = (case writeLastCheck w2 (Num (now w2)) of
                  Inl e \<Rightarrow> w2\<lparr>unhandled := unhandled w2 @ [e]\<rparr>
                | Inr w4 \<Rightarrow> w4)"
      using assms g u True by (auto simp: getOrgCommits_def Let_def)
    with key[OF later_refl] show ?thesis by blast
  next
    case False
    let ?w3 = "w2\<lparr>commits_json := Some (List.map_filter id us)\<rparr>"
    have l3: "later w2 ?w3" by (simp add: later_def)
    have "w' = (case writeLastCheck ?w3 (Num (now ?w3)) of
                  Inl e \<Rightarrow> ?w3\<lparr>unhandled := unhandled ?w3 @ [e]\<rparr>
                | Inr w4 \<Rightarrow> w4)"
      using assms g u False by (auto simp: getOrgCommits_def Let_def)
    with key[OF l3] show ?thesis by blast
  qed
qed

lemma sample_last_check: "getLastCheck (acme twelve_repos) start_world = Inr (Num 10000)"
  by (simp add: getLastCheck_def start_world_def Date_getTime_def)

lemmas sample_defs =
  twelve_repos_def acme_repo_def repoUpdate_def getRepoBranches_def getBranchCommits_def
  sendToDiscord_def build_message_def format_commit_def sample_commit_def acme_def await_def
  requested_def start_world_def Let_def ISODateString_def error_message_def nl_def
  writeLastCheck_def getLastCheck_def Date_getTime_def List.map_filter_simps

lemma listing_at_100:
  "getOrgRepos (acme twelve_repos) late_world ''acme'' (Num 100000) =
     Some (Inr [], requested (acme twelve_repos) late_world [1])"
proof -
  have p: "org_repos (acme twelve_repos) ''acme'' 1 = Inr (take 10 twelve_repos)"
    by (simp add: acme_def paged_def per_page_def)
  have r: "retained (Num 100000) (take 10 twelve_repos) = []"
    by (simp add: retained_Nil_iff older_def js_lt_def twelve_repos_def acme_repo_def)
  show ?thesis
    unfolding getOrgRepos_def using loop_step[OF p, of "Num 100000" "[]" late_world]
    by (simp add: r)
qed

lemma sample_main: "\<exists>r w'. main (acme twelve_repos) ''acme'' start_world = Some (Inr r, w')"
proof -
  obtain w1 where "getOrgCommits (acme twelve_repos) start_world ''acme'' (Num 10000) =
      Some (Inr (List.map_filter id (map (\<lambda>r. fst (repoUpdate (acme twelve_repos) start_world (Num 10000) r))
        (take 3 twelve_repos))), w1)"
    using getOrgCommits_completes[OF listing_at_10] by blast
  then show ?thesis by (simp only: main_def sample_last_check sum.case) blast
qed

text \<open>
  C1, as amended: for every completed cycle, the watermark persisted at the end of the
  cycle is the wall clock read at the end of the cycle (line 92, after the listing and
  every fetch have been awaited), cut to whole seconds: it is the value the next cycle
  reads. That instant is at least the time of one request after the start of the cycle.
  The persisted watermark is at or after the watermark read at the start whenever that
  one is a whole second and not after the wall clock at the end of the cycle.
\<close>

theorem watermark_is_clock_at_cycle_end:
  assumes "main P org w = Some (Inr result, w')"
  shows "\<exists>data. data_json w = Some data
           \<and> data_json w' = Some (data(''last_checked'' \<mapsto> JDate (ISO (now w' div 1000))))
           \<and> getLastCheck P w' = Inr (Num (now w' div 1000 * 1000))
           \<and> now w + int (latency P) \<le> now w'
           \<and> (\<forall>W. getLastCheck P w = Inr (Num W) \<and> W mod 1000 = 0 \<and> W \<le> now w'
                 \<longrightarrow> W \<le> now w' div 1000 * 1000)"
proof -
  from assms obtain data since where d: "data_json w = Some data"
    and c: "getOrgCommits P w org since = Some (Inr result, w')"
    by (auto simp: main_def getLastCheck_def split: option.splits)
  from getOrgCommits_world[OF c] obtain w3 where l: "later w w3"
    and t: "now w + int (latency P) \<le> now w3"
    and e: "w' = (case writeLastCheck w3 (Num (now w3)) of
                    Inl e \<Rightarrow> w3\<lparr>unhandled := unhandled w3 @ [e]\<rparr>
                  | Inr w4 \<Rightarrow> w4)"
    by blast
  from l d have d3: "data_json w3 = Some data" by (simp add: later_def)
  have w': "w' = w3\<lparr>data_json := Some (data(''last_checked'' \<mapsto> JDate (ISO (now w3 div 1000))))\<rparr>"
    using e d3 by (simp add: writeLastCheck_def ISODateString_def)
  have n: "now w' = now w3" by (simp add: w')
  have a: "data_json w' = Some (data(''last_checked'' \<mapsto> JDate (ISO (now w' div 1000))))"
    by (simp add: w')
  have b: "getLastCheck P w' = Inr (Num (now w' div 1000 * 1000))"
    by (simp add: getLastCheck_def a Date_getTime_def)
  have m: "W \<le> now w' div 1000 * 1000" if "W mod 1000 = 0" "W \<le> now w'" for W :: int
  proof -
    have "W div 1000 \<le> now w' div 1000" using that(2) by (rule zdiv_mono1) simp
    then have "W div 1000 * 1000 \<le> now w' div 1000 * 1000" by simp
    moreover have "W div 1000 * 1000 = W" using div_mult_mod_eq[of W 1000] that(1) by simp
    ultimately show ?thesis by simp
  qed
  from d a b t n m show ?thesis by auto
qed

theorem watermark_is_clock_at_cycle_end_witness:
  "map_option (\<lambda>(r, w'). (isl r,
        getLastCheck (acme twelve_repos) w' = Inr (Num (now w' div 1000 * 1000)),
        now start_world + 250 \<le> now w',
        10000 \<le> now w' div 1000 * 1000))
     (main (acme twelve_repos) ''acme'' start_world) = Some (False, True, True, True)"
proof -
  let ?P = "acme twelve_repos"
  obtain w1 where "getOrgCommits ?P start_world ''acme'' (Num 10000) =
      Some (Inr (List.map_filter id (map (\<lambda>r. fst (repoUpdate ?P start_world (Num 10000) r))
        (take 3 twelve_repos))), w1)"
    using getOrgCommits_completes[OF listing_at_10] by blast
  then have "\<exists>r w'. main ?P ''acme'' start_world = Some (Inr r, w')"
    by (simp only: main_def sample_last_check sum.case) blast
  then obtain r w' where m: "main ?P ''acme'' start_world = Some (Inr r, w')" by blast
  from watermark_is_clock_at_cycle_end[OF m] obtain data where
    x: "data_json start_world = Some data
           \<and> data_json w' = Some (data(''last_checked'' \<mapsto> JDate (ISO (now w' div 1000))))
           \<and> getLastCheck ?P w' = Inr (Num (now w' div 1000 * 1000))
           \<and> now start_world + int (latency ?P) \<le> now w'
           \<and> (\<forall>W. getLastCheck ?P start_world = Inr (Num W) \<and> W mod 1000 = 0 \<and> W \<le> now w'
                 \<longrightarrow> W \<le> now w' div 1000 * 1000)" ..
  note y = conjunct2[OF conjunct2[OF x]]
  have b: "getLastCheck ?P w' = Inr (Num (now w' div 1000 * 1000))" by (rule conjunct1[OF y])
  have t: "now start_world + int (latency ?P) \<le> now w'" by (rule conjunct1[OF conjunct2[OF y]])
  have mono: "\<forall>W. getLastCheck ?P start_world = Inr (Num W) \<and> W mod 1000 = 0 \<and> W \<le> now w'
                 \<longrightarrow> W \<le> now w' div 1000 * 1000" by (rule conjunct2[OF conjunct2[OF y]])
  have l: "int (latency ?P) = 250" by (simp add: acme_def)
  have n: "now start_world = 20400" by (simp add: start_world_def)
  from t l n have "10000 \<le> now w'" by simp
  with mono[rule_format, of 10000] sample_last_check have "10000 \<le> now w' div 1000 * 1000" by simp
  with b t l show ?thesis by (simp only: m option.map prod.case sum.disc simp_thms)
qed

text \<open>
  C1 as stated fails. The sample cycle starts at 20.4 seconds and awaits nine requests of
  250 milliseconds; it completes, and the watermark it leaves is second 22, not the
  instant of its start. Started from a watermark at second 100, after the wall clock,
  the cycle completes and leaves the watermark at second 20, before the one it read.
\<close>

theorem watermark_at_cycle_start_counterexample:
  "now start_world = 20400
   \<and> getLastCheck (acme twelve_repos) start_world = Inr (Num 10000)
   \<and> map_option (\<lambda>(r, w'). (isl r, now w', getLastCheck (acme twelve_repos) w'))
        (main (acme twelve_repos) ''acme'' start_world) = Some (False, 22650, Inr (Num 22000))
   \<and> now late_world = 20400
   \<and> getLastCheck (acme twelve_repos) late_world = Inr (Num 100000)
   \<and> map_option (\<lambda>(r, w'). (isl r, now w', getLastCheck (acme twelve_repos) w'))
        (main (acme twelve_repos) ''acme'' late_world) = Some (False, 20650, Inr (Num 20000))"
proof -
  have a: "now start_world = 20400" "now late_world = 20400"
    by (simp_all add: start_world_def late_world_def)
  have b: "getLastCheck (acme twelve_repos) late_world = Inr (Num 100000)"
    by (simp add: getLastCheck_def late_world_def Date_getTime_def)
  have c: "map_option (\<lambda>(r, w'). (isl r, now w', getLastCheck (acme twelve_repos) w'))
        (main (acme twelve_repos) ''acme'' start_world) = Some (False, 22650, Inr (Num 22000))"
    by (simp add: main_def sample_last_check getOrgCommits_def listing_at_10) (simp add: sample_defs)
  have d: "map_option (\<lambda>(r, w'). (isl r, now w', getLastCheck (acme twelve_repos) w'))
        (main (acme twelve_repos) ''acme'' late_world) = Some (False, 20650, Inr (Num 20000))"
    by (simp add: main_def b getOrgCommits_def listing_at_100) (simp add: sample_defs late_world_def)
  show ?thesis by (intro conjI a sample_last_check b c d)
qed

section \<open>Properties of the Poll Loop\<close>

lemma settle_idle:
  assumes "in_flight s = Some r" and "settle P org s = Some s'"
  shows "\<not> isFetching s' \<and> in_flight s' = None \<and> interval_set s' = interval_set s"
proof (cases r)
  case (Inl e)
  with assms show ?thesis by (auto simp: settle_def Let_def)
next
  case (Inr since)
  with assms show ?thesis
    by (auto simp: settle_def Let_def split: option.splits sum.splits prod.splits)
qed

text \<open>In every state the poller reaches, the flag is set exactly while a cycle is in flight.\<close>

lemma reachable_flag:
  "reachable P org w s \<Longrightarrow> (isFetching s \<longleftrightarrow> in_flight s \<noteq> None)"
proof (induction rule: reachable.induct)
  case (started P org w s)
  then show ?case
    by (auto simp: startPolling_def split: option.splits sum.splits prod.splits)
next
  case (stepped P org w s ev s')
  from stepped.hyps(2) show ?case
  proof cases
    case fire
    with stepped.IH show ?thesis by (auto simp: tick_def)
  next
    case (finish r)
    then show ?thesis using settle_idle[of s r P org s'] by simp
  qed
qed

lemma listing_broken:
  "getOrgRepos broken w ''acme'' since = Some (Inl (RequestError ''502''), requested broken w [1])"
proof -
  have "org_repos broken ''acme'' 1 = Inl (RequestError ''502'')" by (simp add: broken_def)
  then show ?thesis unfolding getOrgRepos_def by (rule loop_fail)
qed

lemma settle_sample:
  "\<exists>s'. settle (acme twelve_repos) ''acme'' busy_poller = Some s'"
proof -
  obtain w1 where "getOrgCommits (acme twelve_repos) start_world ''acme'' (Num 10000) =
      Some (Inr (List.map_filter id (map (\<lambda>r. fst (repoUpdate (acme twelve_repos) start_world (Num 10000) r))
        (take 3 twelve_repos))), w1)"
    using getOrgCommits_completes[OF listing_at_10] by blast
  then show ?thesis by (simp add: settle_def busy_poller_def)
qed

lemma settle_broken:
  "\<exists>s'. settle broken ''acme'' busy_poller = Some s'"
  by (simp add: settle_def busy_poller_def getOrgCommits_def listing_broken)

text \<open>
  C5: a tick that fires while a cycle is running changes nothing: the callback returns
  the state it found, so no cycle is started, the flag stays set and the state, the
  watermark in it, is not touched. This holds when the flag is set, and in every state
  the poller reaches the flag is set when a cycle is in flight. Whenever the running
  cycle settles, with its result or with an error that the callback catches, the flag
  is clear and no cycle is in flight, so the next tick starts a cycle.
\<close>

theorem overlapping_tick_is_noop:
  "(isFetching s \<longrightarrow> tick P s = s)
   \<and> (isFetching s \<and> poll_step P org s Tick s' \<longrightarrow> s' = s)
   \<and> (reachable P org w s \<and> in_flight s \<noteq> None \<longrightarrow> isFetching s \<and> tick P s = s)
   \<and> (in_flight s = Some r \<and> settle P org s = Some s'' \<longrightarrow>
        \<not> isFetching s'' \<and> in_flight s'' = None \<and> isFetching (tick P s'')
        \<and> in_flight (tick P s'') = Some (getLastCheck P (wld s'')))"
proof (intro conjI impI)
  assume "isFetching s"
  then show "tick P s = s" by (simp add: tick_def)
next
  assume "isFetching s \<and> poll_step P org s Tick s'"
  then show "s' = s" by (auto simp: tick_def elim: poll_step.cases)
next
  assume a: "reachable P org w s \<and> in_flight s \<noteq> None"
  then show f: "isFetching s" using reachable_flag[of P org w s] by simp
  then show "tick P s = s" by (simp add: tick_def)
next
  assume a: "in_flight s = Some r \<and> settle P org s = Some s''"
  then have i: "\<not> isFetching s'' \<and> in_flight s'' = None \<and> interval_set s'' = interval_set s"
    using settle_idle[of s r P org s''] by simp
  from i show "\<not> isFetching s''" by simp
  from i show "in_flight s'' = None" by simp
  from i show "isFetching (tick P s'')" by (simp add: tick_def)
  from i show "in_flight (tick P s'') = Some (getLastCheck P (wld s''))" by (simp add: tick_def)
qed

theorem overlapping_tick_is_noop_witness:
  "tick (acme twelve_repos) busy_poller = busy_poller
   \<and> map_option (\<lambda>s0. (in_flight (tick (acme twelve_repos) s0) \<noteq> None,
          tick (acme twelve_repos) (tick (acme twelve_repos) s0) = tick (acme twelve_repos) s0))
        (startPolling (acme twelve_repos) ''acme'' start_world) = Some (True, True)
   \<and> map_option (\<lambda>s'. (isFetching s', in_flight s', isFetching (tick (acme twelve_repos) s')))
        (settle (acme twelve_repos) ''acme'' busy_poller) = Some (False, None, True)
   \<and> map_option (\<lambda>s'. (isFetching s', in_flight s', isFetching (tick broken s')))
        (settle broken ''acme'' busy_poller) = Some (False, None, True)"
proof -
  let ?P = "acme twelve_repos"
  have f: "isFetching busy_poller" "in_flight busy_poller = Some (Inr (Num 10000))"
    by (simp_all add: busy_poller_def)
  obtain s1 where s1: "settle ?P ''acme'' busy_poller = Some s1"
    using settle_sample by blast
  obtain s2 where s2: "settle broken ''acme'' busy_poller = Some s2"
    using settle_broken by blast
  obtain r w' where m: "main ?P ''acme'' start_world = Some (Inr r, w')"
    using sample_main by blast
  then obtain s0 where s0: "startPolling ?P ''acme'' start_world = Some s0"
    and i0: "interval_set s0" "\<not> isFetching s0"
    by (simp add: startPolling_def)
  have r0: "reachable ?P ''acme'' start_world (tick ?P s0)"
    by (rule reachable.stepped[OF reachable.started[OF s0] poll_step.fire[OF i0(1)]])
  have n0: "in_flight (tick ?P s0) \<noteq> None" using i0(2) by (simp add: tick_def)
  note t0 = overlapping_tick_is_noop[where s = "tick ?P s0" and P = ?P
      and org = "''acme''" and w = start_world]
  note t1 = overlapping_tick_is_noop[where s = busy_poller and P = ?P
      and org = "''acme''" and r = "Inr (Num 10000)" and s'' = s1]
  note t2 = overlapping_tick_is_noop[where s = busy_poller and P = broken
      and org = "''acme''" and r = "Inr (Num 10000)" and s'' = s2]
  from t0 r0 n0 have z: "tick ?P (tick ?P s0) = tick ?P s0" by blast
  from t1 f have a: "tick ?P busy_poller = busy_poller" by blast
  from t1 f s1 have b: "\<not> isFetching s1" "in_flight s1 = None" "isFetching (tick ?P s1)"
    by blast+
  from t2 f s2 have c: "\<not> isFetching s2" "in_flight s2 = None" "isFetching (tick broken s2)"
    by blast+
  show ?thesis using a b c z n0 by (simp add: s0 s1 s2)
qed


text \<open>
  The un-awaited \<^verbatim>\<open>writeLastCheck\<close> (line 92): when it cannot read \<^verbatim>\<open>data.json\<close>,
  the cycle returns its result all the same, the rejection is left unhandled, and the
  process takes no further step.
\<close>

lemma getOrgCommits_rejected:
  assumes "getOrgCommits P w org since = Some (Inr result, w')" and "data_json w = None"
  shows "unhandled w' = unhandled w @ [FileError ''data.json'']"
proof -
  from getOrgCommits_world[OF assms(1)] obtain w3 where l: "later w w3"
    and e: "w' = (case writeLastCheck w3 (Num (now w3)) of
                    Inl e \<Rightarrow> w3\<lparr>unhandled := unhandled w3 @ [e]\<rparr>
                  | Inr w4 \<Rightarrow> w4)"
    by blast
  from l assms(2) have "data_json w3 = None" "unhandled w3 = unhandled w" by (simp_all add: later_def)
  with e show ?thesis by (simp add: writeLastCheck_def)
qed

lemma rejected_write_ends_process:
  assumes "in_flight s = Some (Inr since)" and "data_json (wld s) = None"
    and "settle P org s = Some s'"
    and "getOrgCommits P (wld s) org since = Some (Inr result, w1)"
  shows "\<not> alive s' \<and> \<not> process_step P org s' ev s''"
proof -
  from assms(1,3,4) have "wld s' = w1" by (auto simp: settle_def Let_def)
  with getOrgCommits_rejected[OF assms(4) assms(2)] have "\<not> alive s'" by (simp add: alive_def)
  then show ?thesis by (auto elim: process_step.cases)
qed





end
